theory Spec2Isabelle
  imports Main "HOL-Library.AList"
begin

section \<open>Common Python notions\<close>

text \<open>The exceptions that the modelled functions can raise.\<close>

datatype error = IndexError | UnboundLocalError | TypeError | ValueError

text \<open>
  Python's \<^verbatim>\<open>str\<close> on an integer: decimal digits, most significant first, with a
  leading minus sign for negative numbers.  Slices \<^verbatim>\<open>s[:m]\<close> and \<^verbatim>\<open>s[m:]\<close> are
  \<^const>\<open>take\<close> and \<^const>\<open>drop\<close>.
\<close>


definition digit_char :: "nat \<Rightarrow> char" where
  "digit_char d = ''0123456789'' ! d"

fun str_nat :: "nat \<Rightarrow> string" where
  "str_nat n = (if n < 10 then [digit_char n] else str_nat (n div 10) @ [digit_char (n mod 10)])"

declare str_nat.simps [simp del]

definition str :: "int \<Rightarrow> string" where
  "str n = (if n < 0 then CHR ''-'' # str_nat (nat (- n)) else str_nat (nat n))"

text \<open>
  \<^verbatim>\<open>int(s)\<close> on a string: white space around the number is dropped, a sign may come
  first, then decimal digits, where single underscores may stand between digits;
  everything else raises ValueError.  \<^verbatim>\<open>s.strip()\<close> and \<^verbatim>\<open>s.split()\<close> know four more
  white-space characters (the separators \<open>0x1C\<close> to \<open>0x1F\<close>) than \<^verbatim>\<open>int\<close> does.
\<close>

definition int_space :: "char \<Rightarrow> bool" where
  "int_space c \<longleftrightarrow> c \<in> set [CHR '' '', CHR 0x09, CHR 0x0A, CHR 0x0B, CHR 0x0C, CHR 0x0D]"

definition str_space :: "char \<Rightarrow> bool" where
  "str_space c \<longleftrightarrow> int_space c \<or> c \<in> set [CHR 0x1C, CHR 0x1D, CHR 0x1E, CHR 0x1F]"

definition is_digit :: "char \<Rightarrow> bool" where
  "is_digit c \<longleftrightarrow> c \<in> set ''0123456789''"

definition digit_value :: "char \<Rightarrow> int" where
  "digit_value c = int (of_char c) - 48"

fun digits_ok :: "string \<Rightarrow> bool" where
  "digits_ok [] = False"
| "digits_ok [c] = is_digit c"
| "digits_ok (c # d # s) =
     (if is_digit c then (if d = CHR ''_'' then digits_ok s else digits_ok (d # s)) else False)"

definition digits_int :: "string \<Rightarrow> int" where
  "digits_int s = foldl (\<lambda>acc c. 10 * acc + digit_value c) 0 (filter is_digit s)"

definition py_int :: "string \<Rightarrow> error + int" where
  "py_int s =
     (let t = rev (dropWhile int_space (rev (dropWhile int_space s)));
          (negative, body) =
            (case t of
               c # r \<Rightarrow> if c = CHR ''-'' then (True, r) else if c = CHR ''+'' then (False, r) else (False, t)
             | [] \<Rightarrow> (False, t))
      in if digits_ok body
         then Inr (if negative then - digits_int body else digits_int body)
         else Inl ValueError)"

definition strip :: "string \<Rightarrow> string" where
  "strip s = rev (dropWhile str_space (rev (dropWhile str_space s)))"

fun split_ws :: "string \<Rightarrow> string \<Rightarrow> string list" where
  "split_ws word [] = (if word = [] then [] else [word])"
| "split_ws word (c # s) =
     (if str_space c then (if word = [] then split_ws [] s else word # split_ws [] s)
      else split_ws (word @ [c]) s)"

definition split :: "string \<Rightarrow> string list" where
  "split s = split_ws [] s"

text \<open>\<^verbatim>\<open>max\<close> of a list, which raises ValueError on the empty list; and the lifting of a
  function that may raise over a list, stopping at the first error.\<close>

definition py_max :: "int list \<Rightarrow> error + int" where
  "py_max xs = (case xs of [] \<Rightarrow> Inl ValueError | x # rest \<Rightarrow> Inr (fold max rest x))"

fun map_err :: "('a \<Rightarrow> error + 'b) \<Rightarrow> 'a list \<Rightarrow> error + 'b list" where
  "map_err f [] = Inr []"
| "map_err f (x # xs) =
     (case f x of
        Inl e \<Rightarrow> Inl e
      | Inr y \<Rightarrow> (case map_err f xs of Inl e \<Rightarrow> Inl e | Inr ys \<Rightarrow> Inr (y # ys)))"

section \<open>Day 2: repeated digit patterns (day02/main.py and day2/agent.py)\<close>

text \<open>\<^verbatim>\<open>s.lstrip("0")\<close>\<close>

definition lstrip0 :: "string \<Rightarrow> string" where
  "lstrip0 s = dropWhile (\<lambda>c. c = CHR ''0'') s"

definition invalid_finder :: "int \<Rightarrow> int \<Rightarrow> int list" where
  "invalid_finder start stop =
     filter (\<lambda>num.
        let str_num = lstrip0 (str num);
            midpoint = length str_num div 2;
            first_half = take midpoint str_num;
            second_half = drop midpoint str_num
        in first_half = second_half) [start..stop]"

text \<open>
  The regular expression \<^verbatim>\<open>(.+?)\1+$\<close> under \<^verbatim>\<open>re.fullmatch\<close>: group 1 is a
  non-empty prefix without a newline (tried shortest first), followed by one or more
  further copies of the group, up to the end of the string.  \<open>backref_plus g s\<close> is the
  part \<^verbatim>\<open>\1+$\<close> for the group text \<open>g\<close> on the rest \<open>s\<close>.
\<close>

function backref_plus :: "string \<Rightarrow> string \<Rightarrow> bool" where
  "backref_plus g s =
     (if g = [] \<or> take (length g) s \<noteq> g then False
      else if drop (length g) s = [] then True
      else backref_plus g (drop (length g) s))"
  by pat_completeness auto
termination
  by (relation "measure (\<lambda>(g, s). length s)") (auto simp: neq_Nil_conv)

declare backref_plus.simps [simp del]

definition fullmatch_repeat :: "string \<Rightarrow> bool" where
  "fullmatch_repeat s =
     list_ex (\<lambda>k. let g = take k s in CHR 0x0A \<notin> set g \<and> backref_plus g (drop k s))
       [1..<length s + 1]"

definition pattern_finder :: "int \<Rightarrow> int \<Rightarrow> int list" where
  "pattern_finder start stop =
     filter (\<lambda>num. let str_num = lstrip0 (str num) in fullmatch_repeat str_num) [start..stop]"

definition is_invalid_part1 :: "int \<Rightarrow> bool" where
  "is_invalid_part1 product_id =
     (let id_str = str product_id; len = length id_str in
      if len < 2 then False
      else if len mod 2 \<noteq> 0 then False
      else let mid = len div 2; first_half = take mid id_str; second_half = drop mid id_str
           in first_half = second_half)"

fun part2_loop :: "string \<Rightarrow> nat list \<Rightarrow> bool" where
  "part2_loop id_str [] = False"
| "part2_loop id_str (seq_length # rest) =
     (if length id_str mod seq_length \<noteq> 0 then part2_loop id_str rest
      else let sequence = take seq_length id_str;
               repetition_count = length id_str div seq_length
           in if repetition_count \<ge> 2 \<and> concat (replicate repetition_count sequence) = id_str
              then True
              else part2_loop id_str rest)"

definition is_invalid_part2 :: "int \<Rightarrow> bool" where
  "is_invalid_part2 product_id =
     (let id_str = str product_id; len = length id_str in
      if len < 2 then False
      else part2_loop id_str [1..<len div 2 + 1])"

text \<open>
  The stated property: some proper divisor \<open>d\<close> of the length rebuilds the string from
  its first \<open>d\<close> characters.
\<close>

definition repeats :: "string \<Rightarrow> bool" where
  "repeats s \<longleftrightarrow>
     (\<exists>d. d dvd length s \<and> d < length s \<and> s = concat (replicate (length s div d) (take d s)))"

section \<open>Day 4: the neighbour-rule automaton (day4/main.py)\<close>

text \<open>
  The module-level dictionary \<^verbatim>\<open>grid_map\<close> maps \<open>(y, x)\<close> to a character.  It is an
  association list in insertion order; a Python dictionary never holds a key twice, so
  the lists of interest have distinct keys.  \<^verbatim>\<open>k in d and d[k] == "@"\<close> is
  \<open>map_of d k = Some CHR ''@''\<close>.
\<close>

type_synonym cell = "int \<times> int"
type_synonym grid = "(cell \<times> char) list"

definition square :: "(int \<times> int) list" where
  "square = [(-1, -1), (0, -1), (1, -1), (-1, 0), (1, 0), (-1, 1), (0, 1), (1, 1)]"

text \<open>The inner loop over \<open>square\<close>, with its early \<^verbatim>\<open>break\<close> at four neighbours.\<close>

fun count_at :: "grid \<Rightarrow> int \<Rightarrow> int \<Rightarrow> (int \<times> int) list \<Rightarrow> nat \<Rightarrow> nat" where
  "count_at grid_map y x [] at_count = at_count"
| "count_at grid_map y x ((dy, dx) # rest) at_count =
     (let ny = y + dy; nx = x + dx;
          at_count' = (if map_of grid_map (ny, nx) = Some CHR ''@'' then at_count + 1 else at_count)
      in if at_count' \<ge> 4 then at_count' else count_at grid_map y x rest at_count')"

text \<open>
  \<open>roll_access\<close> scans the items of the dictionary and collects the keys to clear, each
  mapped to \<open>CHR ''.''\<close>; the scanned dictionary itself is not changed.
\<close>

fun roll_scan :: "grid \<Rightarrow> grid \<Rightarrow> grid" where
  "roll_scan grid_map [] = []"
| "roll_scan grid_map ((key, v) # items) =
     (if v \<noteq> CHR ''@'' then roll_scan grid_map items
      else let at_count = count_at grid_map (fst key) (snd key) square 0
           in if at_count < 4 then (key, CHR ''.'') # roll_scan grid_map items
              else roll_scan grid_map items)"

definition roll_access :: "grid \<Rightarrow> grid" where
  "roll_access grid_map = roll_scan grid_map grid_map"

text \<open>\<^verbatim>\<open>grid_map.update(rolls)\<close>\<close>

definition dict_update :: "grid \<Rightarrow> grid \<Rightarrow> grid" where
  "dict_update grid_map rolls = fold (\<lambda>(k, v) d. AList.update k v d) rolls grid_map"

text \<open>
  The \<^verbatim>\<open>while True\<close> loop of \<^verbatim>\<open>main\<close>; it returns the total and the final dictionary,
  and \<open>None\<close> stands for a loop that never ends.
\<close>

partial_function (option) clear_loop :: "grid \<Rightarrow> nat \<Rightarrow> (nat \<times> grid) option" where
  "clear_loop grid_map total_rolls =
     (let rolls = roll_access grid_map
      in if length rolls = 0 then Some (total_rolls, grid_map)
         else clear_loop (dict_update grid_map rolls) (total_rolls + length rolls))"

definition build_grid :: "string list \<Rightarrow> grid" where
  "build_grid input_lines =
     fold (\<lambda>(y, line) d. fold (\<lambda>(x, c) d'. AList.update (int y, int x) c d') (enumerate 0 line) d)
       (enumerate 0 input_lines) []"

declare clear_loop.simps [code]

definition day4_solve :: "grid \<Rightarrow> (nat \<times> nat) option" where
  "day4_solve grid_map =
     (let p1_rolls = length (roll_access grid_map)
      in case clear_loop grid_map 0 of
           None \<Rightarrow> None
         | Some (total_rolls, _) \<Rightarrow> Some (p1_rolls, total_rolls))"

definition day4_main :: "string list \<Rightarrow> string list option" where
  "day4_main input_lines =
     (case day4_solve (build_grid input_lines) of
        None \<Rightarrow> None
      | Some (p1_rolls, total_rolls) \<Rightarrow>
          Some [''Part 1: '' @ str (int p1_rolls), ''Part 2: '' @ str (int total_rolls)])"

text \<open>
  Vocabulary for the statements: the occupied cells of a grid, the eight neighbours of a
  cell, the occupied cells with fewer than four occupied neighbours, and one round (scan,
  then update).
\<close>

definition occupied :: "grid \<Rightarrow> cell set" where
  "occupied g = {k. map_of g k = Some CHR ''@''}"

definition neighbours8 :: "cell \<Rightarrow> cell set" where
  "neighbours8 k = {p. \<bar>fst p - fst k\<bar> \<le> 1 \<and> \<bar>snd p - snd k\<bar> \<le> 1 \<and> p \<noteq> k}"

definition accessible :: "grid \<Rightarrow> cell set" where
  "accessible g = {k \<in> occupied g. card (neighbours8 k \<inter> occupied g) < 4}"

definition clear_round :: "grid \<Rightarrow> grid" where
  "clear_round g = dict_update g (roll_access g)"

section \<open>Day 7: the branching-path traversal (day7/main.py)\<close>

text \<open>
  Both solvers read the file into a dictionary from \<open>(y, x)\<close> to the character, exactly as
  \<open>build_grid\<close> does, and remember the last cell holding \<open>S\<close>, the index of the last line
  (\<open>grid_len\<close>) and the length of the last line (\<open>row_len\<close>).  The lines are taken here as
  already stripped.  \<^verbatim>\<open>grid.get(k)\<close> is \<open>map_of grid k\<close>; \<^verbatim>\<open>dirs["d"]\<close> is \<open>(1, 0)\<close>,
  \<^verbatim>\<open>dirs["l"]\<close> is \<open>(0, -1)\<close> and \<^verbatim>\<open>dirs["r"]\<close> is \<open>(0, 1)\<close>.
\<close>

definition find_start :: "string list \<Rightarrow> cell option" where
  "find_start input_lines =
     fold (\<lambda>(y, line) sp.
             fold (\<lambda>(x, c) sp'. if c = CHR ''S'' then Some (int y, int x) else sp')
               (enumerate 0 line) sp)
       (enumerate 0 input_lines) None"

definition grid_len_of :: "string list \<Rightarrow> int" where
  "grid_len_of input_lines = int (length input_lines) - 1"

definition row_len_of :: "string list \<Rightarrow> int" where
  "row_len_of input_lines = int (length (last input_lines))"

text \<open>
  The inner function of \<open>solve_1\<close>: the set \<open>cache\<close> and the counter
  \<^verbatim>\<open>totals["split_count"]\<close> are passed through the calls.
\<close>

function traverse_1 :: "(cell \<rightharpoonup> char) \<Rightarrow> int \<Rightarrow> int \<Rightarrow> cell \<Rightarrow> cell set \<times> nat \<Rightarrow> cell set \<times> nat" where
  "traverse_1 grid grid_len row_len (y, x) (cache, split_count) =
     (if (y, x) \<in> cache then (cache, split_count)
      else if y + 1 > grid_len then (insert (y, x) cache, split_count)
      else if grid (y + 1, x) = Some CHR ''^'' then
        (let st = (insert (y, x) cache, split_count + 1);
             st_l = (if 0 \<le> x + (-1) \<and> x + (-1) \<le> row_len
                     then traverse_1 grid grid_len row_len (y + 1, x + (-1)) st else st)
         in if 0 \<le> x + 1 \<and> x + 1 \<le> row_len
            then traverse_1 grid grid_len row_len (y + 1, x + 1) st_l else st_l)
      else if grid (y + 1, x) = Some CHR ''.'' then
        traverse_1 grid grid_len row_len (y + 1, x) (insert (y, x) cache, split_count)
      else (insert (y, x) cache, split_count))"
  by pat_completeness auto
termination
  by (relation "measure (\<lambda>(grid, grid_len, row_len, (y, x), st). nat (grid_len + 1 - y))") auto

definition solve_1 :: "string list \<Rightarrow> error + nat" where
  "solve_1 input_lines =
     (case find_start input_lines of
        None \<Rightarrow> Inl UnboundLocalError
      | Some start_pos \<Rightarrow>
          Inr (snd (traverse_1 (map_of (build_grid input_lines)) (grid_len_of input_lines)
                     (row_len_of input_lines) start_pos ({}, 0))))"

text \<open>
  The inner function of \<open>solve_2\<close>.  \<^verbatim>\<open>lru_cache\<close> stores results of a function without
  effects, so the value is that of the plain recursion; \<open>prev_pos\<close> is only part of the
  cache key.
\<close>

function traverse :: "(cell \<rightharpoonup> char) \<Rightarrow> int \<Rightarrow> int \<Rightarrow> cell \<Rightarrow> cell option \<Rightarrow> nat" where
  "traverse grid grid_len row_len (y, x) prev_pos =
     (if y + 1 > grid_len then 1
      else if grid (y + 1, x) = Some CHR ''^'' then
        (if 0 \<le> x + (-1) \<and> x + (-1) \<le> row_len
         then traverse grid grid_len row_len (y + 1, x + (-1)) (Some (y, x)) else 0)
        + (if 0 \<le> x + 1 \<and> x + 1 \<le> row_len
           then traverse grid grid_len row_len (y + 1, x + 1) (Some (y, x)) else 0)
      else if grid (y + 1, x) = Some CHR ''.'' then
        traverse grid grid_len row_len (y + 1, x) (Some (y, x))
      else 0)"
  by pat_completeness auto
termination
  by (relation "measure (\<lambda>(grid, grid_len, row_len, (y, x), prev_pos). nat (grid_len + 1 - y))") auto

declare traverse.simps [simp del]
declare traverse_1.simps [simp del]

definition solve_2 :: "string list \<Rightarrow> error + nat" where
  "solve_2 input_lines =
     (case find_start input_lines of
        None \<Rightarrow> Inl UnboundLocalError
      | Some start_pos \<Rightarrow>
          Inr (traverse (map_of (build_grid input_lines)) (grid_len_of input_lines)
                 (row_len_of input_lines) start_pos None))"

definition day7_main :: "string list \<Rightarrow> error + string list" where
  "day7_main input_lines =
     (case solve_1 input_lines of
        Inl e \<Rightarrow> Inl e
      | Inr split_count \<Rightarrow>
          (case solve_2 input_lines of
             Inl e \<Rightarrow> Inl e
           | Inr paths_count \<Rightarrow>
               Inr [''Part 1: '' @ str (int split_count), ''Part 2: '' @ str (int paths_count)]))"

section \<open>Day 8: grouping points by nearest distance (day8/main.py)\<close>

text \<open>
  A point is a triple of integers.  An entry of the distance list is \<open>((a, b), d)\<close>; \<open>p1\<close>
  never looks at \<open>d\<close>, so its type is left open.  The dictionary \<open>connections\<close> maps a
  point to its group id and is kept as an association list in insertion order.
\<close>

type_synonym point = "int \<times> int \<times> int"
type_synonym connections = "(point \<times> nat) list"

record p1_state =
  connections :: connections
  last_connection :: "(point \<times> point) option"
  group_id :: nat

text \<open>The merge loop: every node of the old group gets the new group id.\<close>

definition merge_groups :: "connections \<Rightarrow> nat \<Rightarrow> nat \<Rightarrow> connections" where
  "merge_groups conns old_group new_group =
     map (\<lambda>(node, g). (node, if g = old_group then new_group else g)) conns"

text \<open>
  The test after an edge that added a point: \<open>total_coords\<close> is truthy, every point has a
  group, and there is one group id.
\<close>

definition all_in_one_group :: "nat option \<Rightarrow> connections \<Rightarrow> bool" where
  "all_in_one_group total_coords conns =
     (case total_coords of
        None \<Rightarrow> False
      | Some n \<Rightarrow> n \<noteq> 0 \<and> length conns = n \<and> length (remdups (map snd conns)) = 1)"

text \<open>
  The \<^verbatim>\<open>for\<close> loop of \<open>p1\<close> from index \<open>i\<close> on; \<open>iter\<close> is \<open>None\<close> for \<^verbatim>\<open>math.inf\<close>.  The
  branch for two connected points ends with \<^verbatim>\<open>continue\<close>, so the test is not made there.
\<close>

fun p1_loop :: "nat \<Rightarrow> ((point \<times> point) \<times> 'd) list \<Rightarrow> int option \<Rightarrow> nat option \<Rightarrow> p1_state \<Rightarrow> p1_state" where
  "p1_loop i [] iter total_coords st = st"
| "p1_loop i (((a, b), d) # rest) iter total_coords st =
     (let conns = connections st; ca = map_of conns a; cb = map_of conns b
      in if (case iter of None \<Rightarrow> False | Some n \<Rightarrow> int i \<ge> n) then st
         else if ca \<noteq> None \<and> cb \<noteq> None then
           p1_loop (i + 1) rest iter total_coords
             (if the ca \<noteq> the cb
              then st\<lparr>connections := merge_groups conns (the cb) (the ca)\<rparr> else st)
         else
           (let st' =
              (if ca = None \<and> cb = None then
                 st\<lparr>connections :=
                      AList.update b (group_id st) (AList.update a (group_id st) conns),
                    group_id := group_id st + 1\<rparr>
               else if ca \<noteq> None then st\<lparr>connections := AList.update b (the ca) conns\<rparr>
               else st\<lparr>connections := AList.update a (the cb) conns\<rparr>)
            in if all_in_one_group total_coords (connections st')
               then st'\<lparr>last_connection := Some (a, b)\<rparr>
               else p1_loop (i + 1) rest iter total_coords st'))"

text \<open>The sizes of the groups, counted as the final loop of \<open>p1\<close> does.\<close>

definition count_groups :: "nat list \<Rightarrow> (nat \<times> nat) list" where
  "count_groups gids =
     fold (\<lambda>gid groups.
             AList.update gid ((case map_of groups gid of None \<Rightarrow> 0 | Some c \<Rightarrow> c) + 1) groups)
       gids []"

definition p1 :: "((point \<times> point) \<times> 'd) list \<Rightarrow> int option \<Rightarrow> nat option \<Rightarrow> nat \<times> (point \<times> point) option" where
  "p1 distances iter total_coords =
     (let st = p1_loop 0 distances iter total_coords
                 \<lparr>connections = [], last_connection = None, group_id = 1\<rparr>;
          groups = count_groups (map snd (connections st))
      in (prod_list (take 3 (rev (sort (map snd groups)))), last_connection st))"

text \<open>
  The claim's reference procedure: every edge is processed by the same union step, with
  no early exit, and after each edge the test "all points are in one group" is made; the
  first edge at which it holds is reported.
\<close>

definition union_step :: "p1_state \<Rightarrow> point \<Rightarrow> point \<Rightarrow> p1_state" where
  "union_step st a b =
     (let conns = connections st; ca = map_of conns a; cb = map_of conns b
      in if ca \<noteq> None \<and> cb \<noteq> None then
           (if the ca \<noteq> the cb
            then st\<lparr>connections := merge_groups conns (the cb) (the ca)\<rparr> else st)
         else if ca = None \<and> cb = None then
           st\<lparr>connections :=
                AList.update b (group_id st) (AList.update a (group_id st) conns),
              group_id := group_id st + 1\<rparr>
         else if ca \<noteq> None then st\<lparr>connections := AList.update b (the ca) conns\<rparr>
         else st\<lparr>connections := AList.update a (the cb) conns\<rparr>)"

fun first_unifying_edge :: "((point \<times> point) \<times> 'd) list \<Rightarrow> nat option \<Rightarrow> p1_state \<Rightarrow> (point \<times> point) option" where
  "first_unifying_edge [] total_coords st = None"
| "first_unifying_edge (((a, b), d) # rest) total_coords st =
     (let st' = union_step st a b
      in if all_in_one_group total_coords (connections st') then Some (a, b)
         else first_unifying_edge rest total_coords st')"

text \<open>
  \<open>main\<close>: the distinct pairs of different points with their distances, sorted by
  distance.  The square of the distance stands for the floating-point distance (the
  square root is monotone), and the stable sort keeps equal distances in the order in
  which the pairs were generated; the source leaves that order to the iteration order of
  a set.
\<close>

definition sq_distance :: "point \<Rightarrow> point \<Rightarrow> int" where
  "sq_distance a b =
     (case (a, b) of ((ax, ay, az), (bx, by, bz)) \<Rightarrow>
        (ax - bx) ^ 2 + (ay - by) ^ 2 + (az - bz) ^ 2)"

definition pair_distances :: "point list \<Rightarrow> ((point \<times> point) \<times> int) list" where
  "pair_distances coords =
     fold (\<lambda>(a, b) distances.
             if a = b then distances
             else let d = sq_distance a b
                  in if ((b, a), d) \<in> set distances \<or> ((a, b), d) \<in> set distances
                     then distances else distances @ [((a, b), d)])
       (List.product coords coords) []"

definition day8_main :: "point list \<Rightarrow> error + string list" where
  "day8_main coords =
     (let sorted_distances = sort_key snd (pair_distances coords);
          (result, last_connection) = p1 sorted_distances None (Some (length coords))
      in case last_connection of
           None \<Rightarrow> Inl TypeError
         | Some (a, b) \<Rightarrow>
             Inr [''Part 1: '' @ str (int result), ''Part 2: '' @ str (fst a * fst b)])"

section \<open>Day 10: the breadth-first search over light patterns (day10/main.py)\<close>

text \<open>
  A light pattern is the list of the characters between the brackets; a button is a list
  of indices.  Indexing a Python list with \<open>idx\<close> raises IndexError outside
  \<open>[-len, len)\<close> and counts from the end for a negative \<open>idx\<close>.
\<close>

type_synonym light = "char list"
type_synonym button = "int list"
type_synonym queue_entry = "light \<times> button \<times> nat"

fun press_button :: "light \<Rightarrow> button \<Rightarrow> error + light" where
  "press_button next_light [] = Inr next_light"
| "press_button next_light (idx # button) =
     (let n = int (length next_light)
      in if idx < - n \<or> n \<le> idx then Inl IndexError
         else let j = nat (if idx < 0 then idx + n else idx)
              in press_button
                   (next_light[j := (if next_light ! j = CHR ''#'' then CHR ''.'' else CHR ''#'')])
                   button)"

text \<open>
  The \<^verbatim>\<open>for b in buttons\<close> loop inside the search, for the entry \<open>(curr_light, _, presses)\<close>:
  it either finds the target (the queue is cleared and \<open>presses + 1\<close> is recorded), or
  it appends one entry for every button.
\<close>

datatype expansion = Found nat | Queued "queue_entry list"

fun expand :: "light \<Rightarrow> light \<Rightarrow> nat \<Rightarrow> button list \<Rightarrow> error + expansion" where
  "expand light curr_light presses [] = Inr (Queued [])"
| "expand light curr_light presses (b # buttons) =
     (case press_button curr_light b of
        Inl e \<Rightarrow> Inl e
      | Inr next_light \<Rightarrow>
          if next_light = light then Inr (Found (presses + 1))
          else (case expand light curr_light presses buttons of
                  Inl e \<Rightarrow> Inl e
                | Inr (Found n) \<Rightarrow> Inr (Found n)
                | Inr (Queued entries) \<Rightarrow> Inr (Queued ((next_light, b, presses + 1) # entries))))"

text \<open>
  The \<^verbatim>\<open>while queue\<close> loop.  \<open>None\<close> stands for a search that never ends, \<open>Some (Inr None)\<close>
  for a queue that ran empty with nothing recorded.
\<close>

partial_function (option) search :: "light \<Rightarrow> button list \<Rightarrow> queue_entry list \<Rightarrow> (light \<times> nat \<times> button) set \<Rightarrow> (error + nat option) option" where
  "search light buttons queue visited =
     (case queue of
        [] \<Rightarrow> Some (Inr None)
      | (curr_light, b, presses) # queue' \<Rightarrow>
          if (curr_light, presses, b) \<in> visited then search light buttons queue' visited
          else (case expand light curr_light presses buttons of
                  Inl e \<Rightarrow> Some (Inl e)
                | Inr (Found n) \<Rightarrow> Some (Inr (Some n))
                | Inr (Queued entries) \<Rightarrow>
                    search light buttons (queue' @ entries)
                      (insert (curr_light, presses, b) visited)))"

declare search.simps [code]

definition p1_step :: "light \<Rightarrow> button list \<Rightarrow> (error + nat option) option" where
  "p1_step light buttons =
     search light buttons (map (\<lambda>b. (map (\<lambda>_. CHR ''.'') light, b, 0)) buttons) {}"

fun p1_day10 :: "(light \<times> button list \<times> 'v) list \<Rightarrow> (error + nat) option" where
  "p1_day10 [] = Some (Inr 0)"
| "p1_day10 ((light, buttons, voltage) # steps) =
     (case p1_step light buttons of
        None \<Rightarrow> None
      | Some (Inl e) \<Rightarrow> Some (Inl e)
      | Some (Inr found) \<Rightarrow>
          (case p1_day10 steps of
             None \<Rightarrow> None
           | Some (Inl e) \<Rightarrow> Some (Inl e)
           | Some (Inr rest_sum) \<Rightarrow>
               Some (Inr ((case found of None \<Rightarrow> 0 | Some presses \<Rightarrow> presses) + rest_sum))))"

text \<open>
  Vocabulary for the statements: pressing a sequence of buttons one after the other,
  buttons whose indices lie inside the light list, and a target that some sequence of
  exactly \<open>n\<close> presses of the given buttons produces from the all-off pattern.
\<close>

fun press_seq :: "light \<Rightarrow> button list \<Rightarrow> error + light" where
  "press_seq l [] = Inr l"
| "press_seq l (b # bs) =
     (case press_button l b of Inl e \<Rightarrow> Inl e | Inr l' \<Rightarrow> press_seq l' bs)"

definition valid_buttons :: "light \<Rightarrow> button list \<Rightarrow> bool" where
  "valid_buttons light buttons \<longleftrightarrow>
     (\<forall>b \<in> set buttons. \<forall>idx \<in> set b. - int (length light) \<le> idx \<and> idx < int (length light))"

definition reaches :: "light \<Rightarrow> button list \<Rightarrow> nat \<Rightarrow> bool" where
  "reaches light buttons n \<longleftrightarrow>
     (\<exists>bs. length bs = n \<and> set bs \<subseteq> set buttons \<and>
           press_seq (map (\<lambda>_. CHR ''.'') light) bs = Inr light)"

text \<open>
  For the proofs: the pattern after a press that does not raise, the patterns that
  exactly \<open>n\<close> presses produce from a given start, and the invariant of the search loop
  (entries are reachable in their number of presses, the queue is ordered by presses
  within one level of its head, visited entries are not ahead of the queue, and some
  entry that was not yet expanded lies on a shortest way to the target).
\<close>

definition pressf :: "light \<Rightarrow> button \<Rightarrow> light" where
  "pressf l b = (case press_button l b of Inl e \<Rightarrow> l | Inr l' \<Rightarrow> l')"

definition reach_in :: "light \<Rightarrow> button list \<Rightarrow> nat \<Rightarrow> light \<Rightarrow> bool" where
  "reach_in start buttons n l \<longleftrightarrow>
     (\<exists>bs. length bs = n \<and> set bs \<subseteq> set buttons \<and> press_seq start bs = Inr l)"

definition bfs_inv :: "light \<Rightarrow> button list \<Rightarrow> nat \<Rightarrow> queue_entry list \<Rightarrow> (light \<times> nat \<times> button) set \<Rightarrow> bool" where
  "bfs_inv light buttons n queue visited \<longleftrightarrow>
     (\<forall>e \<in> set queue. fst (snd e) \<in> set buttons \<and>
         reach_in (map (\<lambda>_. CHR ''.'') light) buttons (snd (snd e)) (fst e))
   \<and> sorted (map (\<lambda>e. snd (snd e)) queue)
   \<and> (\<forall>e \<in> set queue. \<forall>e' \<in> set queue. snd (snd e') \<le> Suc (snd (snd e)))
   \<and> (\<forall>w \<in> visited. \<forall>e \<in> set queue. fst (snd w) \<le> snd (snd e))
   \<and> (\<exists>e \<in> set queue. (fst e, snd (snd e), fst (snd e)) \<notin> visited \<and>
         (\<exists>k\<ge>1. snd (snd e) + k = n \<and> reach_in (fst e) buttons k light))"

section \<open>Day 1: the dial (day1/main.py and day1/agent.py)\<close>

text \<open>
  \<^verbatim>\<open>day1/main.py\<close>.  The two \<^verbatim>\<open>for _ in range(distance)\<close> loops of each function are
  recursions on the number of rounds; a direction other than \<open>L\<close> and \<open>R\<close> falls through
  and returns \<open>None\<close>.  In \<open>main_1\<close> the value \<open>None\<close> is kept in \<open>curr\<close> (and raises
  TypeError at the next subtraction or addition); in \<open>main_2\<close> unpacking \<open>None\<close> raises
  TypeError at once.
\<close>

fun turn_left :: "nat \<Rightarrow> int \<Rightarrow> int" where
  "turn_left 0 current_value = current_value"
| "turn_left (Suc k) current_value =
     turn_left k (if current_value - 1 < 0 then 99 else current_value - 1)"

fun turn_right :: "nat \<Rightarrow> int \<Rightarrow> int" where
  "turn_right 0 current_value = current_value"
| "turn_right (Suc k) current_value =
     turn_right k (if current_value + 1 > 99 then 0 else current_value + 1)"

definition calculate_turn_idx :: "int option \<Rightarrow> char \<Rightarrow> int \<Rightarrow> error + int option" where
  "calculate_turn_idx current_value dir distance =
     (if dir = CHR ''L'' then
        (if distance \<le> 0 then Inr current_value
         else case current_value of
                None \<Rightarrow> Inl TypeError
              | Some v \<Rightarrow> Inr (Some (turn_left (nat distance) v)))
      else if dir = CHR ''R'' then
        (if distance \<le> 0 then Inr current_value
         else case current_value of
                None \<Rightarrow> Inl TypeError
              | Some v \<Rightarrow> Inr (Some (turn_right (nat distance) v)))
      else Inr None)"

fun count_left :: "nat \<Rightarrow> int \<Rightarrow> int \<Rightarrow> int \<times> int" where
  "count_left 0 current_value count = (current_value, count)"
| "count_left (Suc k) current_value count =
     (let v = current_value - 1;
          count' = (if v = 0 then count + 1 else count)
      in count_left k (if v < 0 then 99 else v) count')"

fun count_right :: "nat \<Rightarrow> int \<Rightarrow> int \<Rightarrow> int \<times> int" where
  "count_right 0 current_value count = (current_value, count)"
| "count_right (Suc k) current_value count =
     (let v = (if current_value + 1 > 99 then 0 else current_value + 1)
      in count_right k v (if v = 0 then count + 1 else count))"

definition calculate_turn_zero_count :: "int \<Rightarrow> char \<Rightarrow> int \<Rightarrow> (int \<times> int) option" where
  "calculate_turn_zero_count current_value dir distance =
     (if dir = CHR ''L'' then Some (count_left (nat distance) current_value 0)
      else if dir = CHR ''R'' then Some (count_right (nat distance) current_value 0)
      else None)"

text \<open>
  \<open>main_1\<close> and \<open>main_2\<close> over the stripped lines; \<^verbatim>\<open>line[0]\<close> raises IndexError on an empty
  line.  Each returns the line it prints.
\<close>

fun main_1_loop :: "string list \<Rightarrow> int \<Rightarrow> int option \<Rightarrow> error + int" where
  "main_1_loop [] count cur = Inr count"
| "main_1_loop (line # lines) count cur =
     (case line of
        [] \<Rightarrow> Inl IndexError
      | dir # rest \<Rightarrow>
          (case py_int rest of
             Inl e \<Rightarrow> Inl e
           | Inr distance \<Rightarrow>
               (case calculate_turn_idx cur dir distance of
                  Inl e \<Rightarrow> Inl e
                | Inr cur' \<Rightarrow>
                    main_1_loop lines (if cur' = Some 0 then count + 1 else count) cur')))"

definition main_1 :: "string list \<Rightarrow> error + string" where
  "main_1 lines =
     (case main_1_loop lines 0 (Some 50) of
        Inl e \<Rightarrow> Inl e
      | Inr count \<Rightarrow> Inr (''Number of times landed on 0: '' @ str count))"

fun main_2_loop :: "string list \<Rightarrow> int \<Rightarrow> int \<Rightarrow> error + int" where
  "main_2_loop [] zero_count cur = Inr zero_count"
| "main_2_loop (line # lines) zero_count cur =
     (case line of
        [] \<Rightarrow> Inl IndexError
      | dir # rest \<Rightarrow>
          (case py_int rest of
             Inl e \<Rightarrow> Inl e
           | Inr distance \<Rightarrow>
               (case calculate_turn_zero_count cur dir distance of
                  None \<Rightarrow> Inl TypeError
                | Some (cur', zc) \<Rightarrow> main_2_loop lines (zero_count + zc) cur')))"

definition main_2 :: "string list \<Rightarrow> error + string" where
  "main_2 lines =
     (case main_2_loop lines 0 50 of
        Inl e \<Rightarrow> Inl e
      | Inr zero_count \<Rightarrow> Inr (''Number of times clicked to 0: '' @ str zero_count))"

definition day1_main :: "string list \<Rightarrow> error + string list" where
  "day1_main lines =
     (case main_1 lines of
        Inl e \<Rightarrow> Inl e
      | Inr first_line \<Rightarrow>
          (case main_2 lines of
             Inl e \<Rightarrow> Inl e
           | Inr second_line \<Rightarrow> Inr [first_line, second_line]))"

text \<open>
  \<^verbatim>\<open>day1/agent.py\<close>, from the parsed rotations on.  \<^verbatim>\<open>//\<close> and \<^verbatim>\<open>%\<close> with the divisor 100
  are \<open>div\<close> and \<open>mod\<close> on the integers.
\<close>

datatype Direction = LEFT | RIGHT

record Rotation =
  direction :: Direction
  distance :: int

datatype PasswordMethod = STANDARD | CLICK_METHOD

definition calculate_zero_crossings :: "int \<Rightarrow> Direction \<Rightarrow> int \<Rightarrow> bool \<Rightarrow> int" where
  "calculate_zero_crossings start_position dir dist count_during =
     (if dist = 0 then 0
      else if \<not> count_during then
        (let final_position = (start_position + (if dir = RIGHT then dist else - dist)) mod 100
         in if final_position = 0 then 1 else 0)
      else if dir = RIGHT then (start_position + dist) div 100 - start_position div 100
      else if start_position = 0 then dist div 100
      else if dist < start_position then 0
      else (let remaining = dist - start_position in 1 + remaining div 100))"

definition simulate_rotation :: "int \<Rightarrow> Rotation \<Rightarrow> bool \<Rightarrow> int \<times> int" where
  "simulate_rotation start_position rotation count_during =
     (let final_position =
            (if direction rotation = RIGHT then (start_position + distance rotation) mod 100
             else (start_position - distance rotation) mod 100);
          zero_crossings =
            calculate_zero_crossings start_position (direction rotation) (distance rotation)
              count_during
      in (final_position, zero_crossings))"

definition calculate_password :: "Rotation list \<Rightarrow> PasswordMethod \<Rightarrow> int" where
  "calculate_password rotations method =
     (let count_during = (method = CLICK_METHOD)
      in snd (fold (\<lambda>rotation (current_position, total_zero_crossings).
                      (let (final_position, zero_crossings) =
                             simulate_rotation current_position rotation count_during
                       in (final_position, total_zero_crossings + zero_crossings)))
                rotations (50, 0)))"

definition day1_agent_main :: "Rotation list \<Rightarrow> string list" where
  "day1_agent_main rotations =
     (let part1_answer = calculate_password rotations STANDARD;
          part2_answer = calculate_password rotations CLICK_METHOD
      in [''Part 1 (Standard Method): '' @ str part1_answer,
          ''Part 2 (Click Method 0x434C49434B): '' @ str part2_answer])"

section \<open>Day 3: the largest joltage (day03/main.py and day3/main.py)\<close>

text \<open>
  \<^verbatim>\<open>[int(n) for n in bank]\<close> reads every character of the line as a number and raises
  ValueError at the first character that is not a digit.  For two digits \<open>a\<close> and \<open>b\<close>,
  \<^verbatim>\<open>int(f"{a}{b}")\<close> is \<open>10 * a + b\<close>.
\<close>

definition bank_digits :: "string \<Rightarrow> error + int list" where
  "bank_digits bank = map_err (\<lambda>n. py_int [n]) bank"

definition largest_2_volts :: "string \<Rightarrow> error + int" where
  "largest_2_volts bank =
     (case bank_digits bank of
        Inl e \<Rightarrow> Inl e
      | Inr nums \<Rightarrow>
          py_max (concat (map (\<lambda>i. map (\<lambda>j. 10 * (nums ! i) + nums ! j) [i + 1..<length nums])
                            [0..<length nums])))"

text \<open>
  \<open>largest_12_volts_grouped\<close> of \<^verbatim>\<open>day03/main.py\<close>.  The pairs (index, digit) are sorted by
  digit, largest first, equal digits staying in index order; for every digit position
  the first pair whose index lies strictly between the previous index and the farthest
  usable index is taken out of the list.  \<^verbatim>\<open>int("".join(map(str, joltage)))\<close> raises
  ValueError when nothing was taken.
\<close>

fun take_first :: "(int \<times> int) list \<Rightarrow> int \<Rightarrow> int \<Rightarrow> ((int \<times> int) \<times> (int \<times> int) list) option" where
  "take_first [] previous_index max_index = None"
| "take_first (d # ordered_bank) previous_index max_index =
     (if previous_index < fst d \<and> fst d < max_index then Some (d, ordered_bank)
      else (case take_first ordered_bank previous_index max_index of
              None \<Rightarrow> None
            | Some (found, others) \<Rightarrow> Some (found, d # others)))"

fun grouped_loop :: "nat list \<Rightarrow> int \<Rightarrow> int \<Rightarrow> (int \<times> int) list \<Rightarrow> int list \<Rightarrow> int \<Rightarrow> int list" where
  "grouped_loop [] len required ordered_bank joltage previous_index = joltage"
| "grouped_loop (digit_index # later) len required ordered_bank joltage previous_index =
     (let max_index = len - required + int digit_index + 1
      in case take_first ordered_bank previous_index max_index of
           None \<Rightarrow> grouped_loop later len required ordered_bank joltage previous_index
         | Some (d, others) \<Rightarrow>
             grouped_loop later len required others (joltage @ [snd d]) (fst d))"

definition largest_12_volts_grouped :: "string \<Rightarrow> nat \<Rightarrow> error + int" where
  "largest_12_volts_grouped current_str required =
     (case bank_digits current_str of
        Inl e \<Rightarrow> Inl e
      | Inr nums \<Rightarrow>
          (let ordered_bank = sort_key (\<lambda>x. - snd x) (zip (map int [0..<length nums]) nums);
               joltage = grouped_loop [0..<required] (int (length current_str)) (int required)
                           ordered_bank [] (- 1)
           in if joltage = [] then Inl ValueError
              else Inr (foldl (\<lambda>acc d. 10 * acc + d) 0 joltage)))"

text \<open>
  The two loops of \<open>main\<close> over the stripped lines: the first adds up Part 1, the
  second prints one line for every input line and adds up Part 2.
\<close>

fun sum_err :: "('a \<Rightarrow> error + int) \<Rightarrow> 'a list \<Rightarrow> error + int" where
  "sum_err f [] = Inr 0"
| "sum_err f (x # xs) =
     (case f x of
        Inl e \<Rightarrow> Inl e
      | Inr v \<Rightarrow> (case sum_err f xs of Inl e \<Rightarrow> Inl e | Inr rest_sum \<Rightarrow> Inr (v + rest_sum)))"

fun line_loop :: "(string \<Rightarrow> error + int) \<Rightarrow> string list \<Rightarrow> error + (string list \<times> int)" where
  "line_loop f [] = Inr ([], 0)"
| "line_loop f (line # lines) =
     (case f line of
        Inl e \<Rightarrow> Inl e
      | Inr res \<Rightarrow>
          (case line_loop f lines of
             Inl e \<Rightarrow> Inl e
           | Inr (printed, rest_sum) \<Rightarrow>
               Inr ((''Line: '' @ line @ '' -> '' @ str res) # printed, res + rest_sum)))"

definition day03_main :: "string list \<Rightarrow> error + string list" where
  "day03_main lines =
     (case sum_err largest_2_volts lines of
        Inl e \<Rightarrow> Inl e
      | Inr p1_total \<Rightarrow>
          (case line_loop (\<lambda>line. largest_12_volts_grouped line 12) lines of
             Inl e \<Rightarrow> Inl e
           | Inr (printed, p2_total) \<Rightarrow>
               Inr (printed @ [''Part 1: '' @ str p1_total, ''Part 2: '' @ str p2_total])))"

text \<open>
  \<open>largest_12_volts\<close> of \<^verbatim>\<open>day3/main.py\<close>.  The characters of the bank are read as digits
  first: the source does so in its first list of indexes, before any call of
  \<open>recursor\<close>, and so raises ValueError on a character that is not a digit.  The set
  \<open>mem\<close>, the list \<open>maxes\<close> and the dictionary \<open>max_idx\<close> are passed through the calls;
  \<open>current_str\<close> is kept as its list of digits, and \<^verbatim>\<open>int(current_str)\<close> is the number
  they spell.
\<close>

record volts_state =
  mem :: "int set"
  maxes :: "int list"
  max_idx :: "(nat \<times> int) list"

definition digits_number :: "int list \<Rightarrow> int" where
  "digits_number ds = foldl (\<lambda>acc d. 10 * acc + d) 0 ds"

function recursor :: "int list \<Rightarrow> int list \<Rightarrow> nat \<Rightarrow> volts_state \<Rightarrow> volts_state" where
  "recursor nums current_str idx st =
     (if digits_number current_str
           \<le> (case map_of (max_idx st) (length current_str) of None \<Rightarrow> - 1 | Some m \<Rightarrow> m)
      then st
      else if digits_number current_str \<in> mem st then st
      else if length current_str = 12 then
        st\<lparr>mem := insert (digits_number current_str) (mem st),
           maxes := maxes st @ [digits_number current_str],
           max_idx :=
             fold (\<lambda>i d. if take i current_str \<noteq> []
                          then AList.update i (digits_number (take i current_str)) d else d)
               (rev [0..<length current_str + 1]) (max_idx st)\<rparr>
      else fold (\<lambda>j st'. recursor nums (current_str @ [nums ! j]) (j + 1) st')
             [idx..<length nums] st)"
  by pat_completeness auto
termination
  by (relation "measure (\<lambda>(nums, current_str, idx, st). length nums - idx)") auto

declare recursor.simps [simp del]

fun possibles_loop :: "int list \<Rightarrow> int list \<Rightarrow> volts_state \<Rightarrow> volts_state" where
  "possibles_loop [] nums st = st"
| "possibles_loop (p # possibles) nums st =
     (let indexes = filter (\<lambda>i. nums ! i = p) [0..<length nums];
          st' = fold (\<lambda>idx s. recursor nums [nums ! idx] (idx + 1) s) indexes st
      in if length (maxes st') > 0 then st' else possibles_loop possibles nums st')"

definition largest_12_volts :: "string \<Rightarrow> error + int" where
  "largest_12_volts bank =
     (case bank_digits bank of
        Inl e \<Rightarrow> Inl e
      | Inr nums \<Rightarrow>
          py_max (maxes (possibles_loop (rev (map int [0..<10])) nums
                           \<lparr>mem = {}, maxes = [], max_idx = []\<rparr>)))"

definition day3_main :: "string list \<Rightarrow> error + string list" where
  "day3_main lines =
     (case sum_err largest_2_volts lines of
        Inl e \<Rightarrow> Inl e
      | Inr p1_total \<Rightarrow>
          (case line_loop largest_12_volts lines of
             Inl e \<Rightarrow> Inl e
           | Inr (printed, p2_total) \<Rightarrow>
               Inr (printed @ [''Part 1: '' @ str p1_total, ''Part 2: '' @ str p2_total])))"

section \<open>Day 5: fresh ingredients (day05/main.py)\<close>

text \<open>
  From the result of \<open>read_input\<close> on: the ranges sorted by their start, and the
  ingredients (a set, here the list of its distinct elements).  In \<open>all_fresh\<close> the variables
  \<open>start\<close> and \<open>end\<close> are \<open>None\<close> until the first range was seen; comparing or adding
  \<open>None\<close> raises TypeError, which happens when there is exactly one range.
\<close>

fun all_fresh_loop :: "nat \<Rightarrow> nat \<Rightarrow> (int \<times> int) list \<Rightarrow> int \<Rightarrow> int option \<Rightarrow> int option \<Rightarrow> error + int" where
  "all_fresh_loop i len [] fresh_count start stop = Inr fresh_count"
| "all_fresh_loop i len (r # ranges) fresh_count start stop =
     (if int i = int len - 1 then
        (case (start, stop) of
           (Some s, Some e) \<Rightarrow>
             if fst r \<le> e \<and> e \<le> snd r then Inr (fresh_count + (snd r - s + 1))
             else Inr (fresh_count + (e - s + 1) + (snd r - fst r + 1))
         | _ \<Rightarrow> Inl TypeError)
      else if start = None then all_fresh_loop (i + 1) len ranges fresh_count (Some (fst r)) (Some (snd r))
      else
        (case (start, stop) of
           (Some s, Some e) \<Rightarrow>
             if fst r \<le> e \<and> e \<le> snd r then
               all_fresh_loop (i + 1) len ranges fresh_count start (Some (snd r))
             else if e \<ge> snd r then all_fresh_loop (i + 1) len ranges fresh_count start stop
             else all_fresh_loop (i + 1) len ranges (fresh_count + (e - s + 1))
                    (Some (fst r)) (Some (snd r))
         | _ \<Rightarrow> Inl TypeError))"

definition all_fresh :: "(int \<times> int) list \<Rightarrow> error + int" where
  "all_fresh ranges = all_fresh_loop 0 (length ranges) ranges 0 None None"

fun in_some_range :: "(int \<times> int) list \<Rightarrow> int \<Rightarrow> bool" where
  "in_some_range [] ingredient = False"
| "in_some_range (r # ranges) ingredient =
     (if fst r \<le> ingredient \<and> ingredient \<le> snd r then True else in_some_range ranges ingredient)"

definition day05_main :: "(int \<times> int) list \<Rightarrow> int list \<Rightarrow> error + string list" where
  "day05_main ranges ingredients =
     (let fresh = int (length (filter (in_some_range ranges) ingredients))
      in case all_fresh ranges of
           Inl e \<Rightarrow> Inl e
         | Inr total_fresh \<Rightarrow> Inr [''Part 1: '' @ str fresh, ''Part 2: '' @ str total_fresh])"

section \<open>Day 6: the worksheet (day6/main.py)\<close>

text \<open>
  \<open>doMath\<close> of the class \<open>maths\<close>: \<^verbatim>\<open>reduce\<close> without a start value raises TypeError on an
  empty list, and a symbol other than \<open>+\<close> and \<open>*\<close> gives \<open>None\<close>.  \<^verbatim>\<open>sum(totals)\<close> raises
  TypeError when \<open>None\<close> is among the totals.
\<close>

definition doMath :: "string option \<Rightarrow> int list \<Rightarrow> error + int option" where
  "doMath symbol nums =
     (if symbol = Some ''+'' then
        (case nums of [] \<Rightarrow> Inl TypeError | x # xs \<Rightarrow> Inr (Some (fold (\<lambda>y acc. acc + y) xs x)))
      else if symbol = Some ''*'' then
        (case nums of [] \<Rightarrow> Inl TypeError | x # xs \<Rightarrow> Inr (Some (fold (\<lambda>y acc. acc * y) xs x)))
      else Inr None)"

fun sum_totals :: "int option list \<Rightarrow> error + int" where
  "sum_totals [] = Inr 0"
| "sum_totals (None # totals) = Inl TypeError"
| "sum_totals (Some t # totals) =
     (case sum_totals totals of Inl e \<Rightarrow> Inl e | Inr rest_sum \<Rightarrow> Inr (t + rest_sum))"

text \<open>
  \<^verbatim>\<open>zip(*rows)\<close>: the columns of a list of rows, as many as the shortest row has
  elements (none for no rows).
\<close>

definition zip_star :: "'a list list \<Rightarrow> 'a list list" where
  "zip_star rows =
     (if rows = [] then []
      else map (\<lambda>k. map (\<lambda>row. row ! k) rows) [0..<Min (set (map length rows))])"

text \<open>\<open>solve_1\<close> and \<open>solve_2\<close>, on the lines as \<^verbatim>\<open>readlines\<close> returns them.\<close>

fun solve_1_rows :: "string list list \<Rightarrow> error + int option list" where
  "solve_1_rows [] = Inr []"
| "solve_1_rows (row # rows) =
     (case map_err py_int (tl row) of
        Inl e \<Rightarrow> Inl e
      | Inr nums \<Rightarrow>
          (case doMath (Some (hd row)) nums of
             Inl e \<Rightarrow> Inl e
           | Inr t \<Rightarrow>
               (case solve_1_rows rows of Inl e \<Rightarrow> Inl e | Inr totals \<Rightarrow> Inr (t # totals))))"

definition solve_1_day6 :: "string list \<Rightarrow> error + int" where
  "solve_1_day6 file_lines =
     (let data = map (\<lambda>line. split (strip line)) file_lines
      in case solve_1_rows (zip_star (rev data)) of
           Inl e \<Rightarrow> Inl e
         | Inr totals \<Rightarrow> sum_totals totals)"

fun solve_2_rows :: "string list \<Rightarrow> int option list \<Rightarrow> string option \<Rightarrow> int list \<Rightarrow> error + int option list" where
  "solve_2_rows [] totals curr_symbol curr_nums =
     (case doMath curr_symbol curr_nums of
        Inl e \<Rightarrow> Inl e
      | Inr t \<Rightarrow> Inr (totals @ [t]))"
| "solve_2_rows (row # grid) totals curr_symbol curr_nums =
     (if \<not> str_space (hd row) \<and> curr_symbol = None then
        (case py_int (rev (tl row)) of
           Inl e \<Rightarrow> Inl e
         | Inr n \<Rightarrow> solve_2_rows grid totals (Some [hd row]) (curr_nums @ [n]))
      else if \<not> str_space (hd row) then
        (case doMath curr_symbol curr_nums of
           Inl e \<Rightarrow> Inl e
         | Inr t \<Rightarrow>
             (case py_int (rev (tl row)) of
                Inl e \<Rightarrow> Inl e
              | Inr n \<Rightarrow> solve_2_rows grid (totals @ [t]) (Some [hd row]) [n]))
      else
        (case py_int (rev (tl row)) of
           Inl e \<Rightarrow> Inl e
         | Inr n \<Rightarrow> solve_2_rows grid totals curr_symbol (curr_nums @ [n])))"

definition solve_2_day6 :: "string list \<Rightarrow> error + int" where
  "solve_2_day6 file_lines =
     (let grid = map rev (zip_star file_lines);
          grid = filter (\<lambda>row. \<exists>c \<in> set row. \<not> str_space c) grid
      in case solve_2_rows grid [] None [] of
           Inl e \<Rightarrow> Inl e
         | Inr totals \<Rightarrow> sum_totals totals)"

definition day6_main :: "string list \<Rightarrow> error + string list" where
  "day6_main file_lines =
     (case solve_1_day6 file_lines of
        Inl e \<Rightarrow> Inl e
      | Inr total_1 \<Rightarrow>
          (case solve_2_day6 file_lines of
             Inl e \<Rightarrow> Inl e
           | Inr total_2 \<Rightarrow> Inr [''Part 1: '' @ str total_1, ''Part 2: '' @ str total_2]))"

section \<open>Day 9: the largest rectangle (day09/main.py)\<close>

text \<open>
  From the coordinates read by \<open>read_input\<close> on.  The polygon library is outside the
  repository: building the polygon (which may raise) and the containment test are
  parameters, \<open>make_polygon\<close> and \<open>contains\<close>.  The candidates are tried by area, largest
  first; equal areas are kept in the order in which the pairs were generated, where the
  source has the iteration order of a set.
\<close>

definition man_distance :: "int \<times> int \<Rightarrow> int \<times> int \<Rightarrow> int \<times> int" where
  "man_distance a b = (\<bar>fst a - fst b\<bar> + 1, \<bar>snd a - snd b\<bar> + 1)"

definition create_polygon_boundary :: "(int \<times> int) list \<Rightarrow> (int \<times> int) list" where
  "create_polygon_boundary coords =
     concat (map (\<lambda>i.
        (let (x1, y1) = coords ! i;
             (x2, y2) = coords ! ((i + 1) mod length coords);
             dy = y2 - y1;
             dx = x2 - x1;
             steps = max \<bar>dy\<bar> \<bar>dx\<bar>
         in if steps = 0 then [(x1, y1)]
            else map (\<lambda>step. (x1 + (dx * int step) div steps, y1 + (dy * int step) div steps))
                   [0..<nat steps + 1]))
        [0..<length coords])"

type_synonym candidate = "((int \<times> int) \<times> (int \<times> int)) \<times> (int \<times> int) \<times> int"

definition rectangle_candidates :: "(int \<times> int) list \<Rightarrow> candidate list \<times> int" where
  "rectangle_candidates coords =
     fold (\<lambda>(a, b) (distances, max_area).
             if a = b then (distances, max_area)
             else (let d = man_distance a b;
                       area = fst d * snd d;
                       max_area' = (if area > max_area then area else max_area)
                   in if ((b, a), d, area) \<in> set distances \<or> ((a, b), d, area) \<in> set distances
                      then (distances, max_area')
                      else (distances @ [((a, b), d, area)], max_area')))
       (List.product coords coords) ([], 0)"

fun p2_loop :: "('p \<Rightarrow> int \<times> int \<times> int \<times> int \<Rightarrow> bool) \<Rightarrow> 'p \<Rightarrow> candidate list \<Rightarrow> int option" where
  "p2_loop contains polygon [] = None"
| "p2_loop contains polygon (((a, b), d, area) # rest) =
     (if contains polygon (min (fst a) (fst b), min (snd a) (snd b), max (fst a) (fst b), max (snd a) (snd b))
      then Some area
      else p2_loop contains polygon rest)"

definition p2_day09 :: "((int \<times> int) list \<Rightarrow> error + 'p) \<Rightarrow> ('p \<Rightarrow> int \<times> int \<times> int \<times> int \<Rightarrow> bool) \<Rightarrow> (int \<times> int) list \<Rightarrow> candidate list \<Rightarrow> error + int option" where
  "p2_day09 make_polygon contains boundary distances =
     (case make_polygon boundary of
        Inl e \<Rightarrow> Inl e
      | Inr polygon \<Rightarrow>
          Inr (p2_loop contains polygon (sort_key (\<lambda>x. - snd (snd x)) distances)))"

definition day09_main :: "((int \<times> int) list \<Rightarrow> error + 'p) \<Rightarrow> ('p \<Rightarrow> int \<times> int \<times> int \<times> int \<Rightarrow> bool) \<Rightarrow> (int \<times> int) list \<Rightarrow> error + string list" where
  "day09_main make_polygon contains coords =
     (let (distances, max_area) = rectangle_candidates coords;
          boundary = create_polygon_boundary coords
      in case p2_day09 make_polygon contains boundary distances of
           Inl e \<Rightarrow> Inl e
         | Inr grid \<Rightarrow>
             Inr [''Part 1: '' @ str max_area,
                  ''Part 2: '' @ (case grid of None \<Rightarrow> ''None'' | Some area \<Rightarrow> str area)])"

section \<open>Day 10: the whole script (day10/main.py)\<close>

text \<open>
  \<open>p2\<close> hands one system of constraints per step to an optimising solver outside the
  repository and adds up the presses of the model it returns.  The solver is the
  parameter \<open>solver\<close>: from the buttons and the target voltages of a step it gives the
  value of every button variable, or raises.
\<close>

fun p2_day10 :: "(button list \<Rightarrow> 'v \<Rightarrow> error + int list) \<Rightarrow> (light \<times> button list \<times> 'v) list \<Rightarrow> error + int" where
  "p2_day10 solver [] = Inr 0"
| "p2_day10 solver ((light, buttons, target_voltage) # steps) =
     (case solver buttons target_voltage of
        Inl e \<Rightarrow> Inl e
      | Inr presses \<Rightarrow>
          (case p2_day10 solver steps of
             Inl e \<Rightarrow> Inl e
           | Inr rest_sum \<Rightarrow> Inr (sum_list presses + rest_sum)))"

definition day10_main :: "(button list \<Rightarrow> 'v \<Rightarrow> error + int list) \<Rightarrow> (light \<times> button list \<times> 'v) list \<Rightarrow> (error + string list) option" where
  "day10_main solver steps =
     (case p1_day10 steps of
        None \<Rightarrow> None
      | Some (Inl e) \<Rightarrow> Some (Inl e)
      | Some (Inr p1_res) \<Rightarrow>
          (case p2_day10 solver steps of
             Inl e \<Rightarrow> Some (Inl e)
           | Inr p2_res \<Rightarrow>
               Some (Inr [''Part 1: '' @ str (int p1_res), ''Part 2: '' @ str p2_res])))"

section \<open>What the scripts print\<close>

text \<open>
  The \<open>main\<close> functions of the two Day 2 scripts, from the parsed ranges on (a list of
  pairs \<open>(start, end)\<close>); the value of a \<open>main\<close> is the list of the lines it prints.
\<close>

definition day02_main :: "(int \<times> int) list \<Rightarrow> string list" where
  "day02_main ranges =
     (let total_sum = fold (\<lambda>(start, stop) acc. acc + sum_list (invalid_finder start stop)) ranges 0;
          p2_total_sum = fold (\<lambda>(start, stop) acc. acc + sum_list (pattern_finder start stop)) ranges 0
      in [''Total sum of invalid IDs: '' @ str total_sum,
          ''Total sum of invalid IDs - Part 2: '' @ str p2_total_sum])"

definition find_invalid_ids_in_range :: "int \<Rightarrow> int \<Rightarrow> (int \<Rightarrow> bool) \<Rightarrow> int list" where
  "find_invalid_ids_in_range start stop validator = filter validator [start..stop]"

definition calculate_invalid_sum :: "(int \<times> int) list \<Rightarrow> (int \<Rightarrow> bool) \<Rightarrow> int" where
  "calculate_invalid_sum ranges validator =
     fold (\<lambda>(start, stop) total_sum.
             total_sum + sum_list (find_invalid_ids_in_range start stop validator)) ranges 0"

definition day2_agent_main :: "(int \<times> int) list \<Rightarrow> string list" where
  "day2_agent_main ranges =
     (let part1_answer = calculate_invalid_sum ranges is_invalid_part1;
          part2_answer = calculate_invalid_sum ranges is_invalid_part2
      in [''Part 1: '' @ str part1_answer, ''Part 2: '' @ str part2_answer])"

text \<open>
  The stated form of the output: exactly two lines, the first beginning with
  \<^verbatim>\<open>Part 1: \<close> and the second with \<^verbatim>\<open>Part 2: \<close>.
\<close>

definition prints_two_parts :: "string list \<Rightarrow> bool" where
  "prints_two_parts out =
     (case out of
        [first_line, second_line] \<Rightarrow>
          take 8 first_line = ''Part 1: '' \<and> take 8 second_line = ''Part 2: ''
      | _ \<Rightarrow> False)"

subsection \<open>Day 2: the two predicates and their characterisations\<close>

lemma digit_char_not_zero: "0 < d \<Longrightarrow> d < 10 \<Longrightarrow> digit_char d \<noteq> CHR ''0''"
proof -
  assume "0 < d" "d < 10"
  then have "d \<in> {1, 2, 3, 4, 5, 6, 7, 8, 9}" by auto
  then show ?thesis by (auto simp: digit_char_def)
qed

lemma digit_char_not_newline: "d < 10 \<Longrightarrow> digit_char d \<noteq> CHR 0x0A"
proof -
  assume "d < 10"
  then have "d \<in> {0, 1, 2, 3, 4, 5, 6, 7, 8, 9}" by auto
  then show ?thesis by (auto simp: digit_char_def)
qed

lemma str_nat_not_Nil: "str_nat n \<noteq> []"
  by (subst str_nat.simps) simp

lemma hd_str_nat: "0 < n \<Longrightarrow> hd (str_nat n) \<noteq> CHR ''0''"
proof (induction n rule: str_nat.induct)
  case (1 n)
  show ?case
  proof (cases "n < 10")
    case True
    with "1.prems" show ?thesis
      by (subst str_nat.simps) (simp add: digit_char_not_zero)
  next
    case False
    then have "0 < n div 10" by simp
    with "1.IH" False have "hd (str_nat (n div 10)) \<noteq> CHR ''0''" by simp
    with False show ?thesis
      by (subst str_nat.simps) (simp add: str_nat_not_Nil)
  qed
qed

lemma newline_notin_str_nat: "CHR 0x0A \<notin> set (str_nat n)"
proof (induction n rule: str_nat.induct)
  case (1 n)
  show ?case
  proof (cases "n < 10")
    case True
    then show ?thesis
      by (subst str_nat.simps) (simp add: digit_char_not_newline [symmetric])
  next
    case False
    with "1.IH" have "CHR 0x0A \<notin> set (str_nat (n div 10))" by simp
    moreover have "digit_char (n mod 10) \<noteq> CHR 0x0A"
      by (rule digit_char_not_newline) simp
    ultimately show ?thesis using False
      by (subst str_nat.simps) auto
  qed
qed

lemma str_pos: "0 < n \<Longrightarrow> str n = str_nat (nat n)"
  by (simp add: str_def)

lemma lstrip0_str: "0 < n \<Longrightarrow> lstrip0 (str n) = str n"
proof -
  assume pos: "0 < n"
  then have "hd (str_nat (nat n)) \<noteq> CHR ''0''" by (intro hd_str_nat) simp
  then show ?thesis
    using str_nat_not_Nil [of "nat n"] pos
    by (cases "str_nat (nat n)") (simp_all add: lstrip0_def str_pos)
qed

lemma newline_notin_str: "0 < n \<Longrightarrow> CHR 0x0A \<notin> set (str n)"
  by (simp add: str_pos newline_notin_str_nat)

lemma halves_equal_even: "take (length s div 2) s = drop (length s div 2) s \<Longrightarrow> even (length s)"
proof -
  assume "take (length s div 2) s = drop (length s div 2) s"
  then have "length (take (length s div 2) s) = length (drop (length s div 2) s)" by simp
  then show ?thesis by (simp add: min_def split: if_splits) presburger
qed

lemma invalid_finder_member:
  "n \<in> set (invalid_finder start stop) \<longleftrightarrow>
     start \<le> n \<and> n \<le> stop \<and>
     take (length (lstrip0 (str n)) div 2) (lstrip0 (str n)) =
     drop (length (lstrip0 (str n)) div 2) (lstrip0 (str n))"
  by (auto simp: invalid_finder_def Let_def)

lemma is_invalid_part1_iff:
  "is_invalid_part1 n \<longleftrightarrow>
     even (length (str n)) \<and> take (length (str n) div 2) (str n) = drop (length (str n) div 2) (str n)"
proof (cases "length (str n) < 2")
  case True
  moreover have "str n \<noteq> []" by (simp add: str_def str_nat_not_Nil)
  ultimately have "length (str n) = 1" by (cases "str n") auto
  then show ?thesis by (simp add: is_invalid_part1_def Let_def)
next
  case False
  then show ?thesis
    by (auto simp: is_invalid_part1_def Let_def even_iff_mod_2_eq_zero)
qed


lemma bex_Cons_skip: "\<not> P k \<Longrightarrow> (\<exists>x \<in> set (k # ks). P x) = (\<exists>x \<in> set ks. P x)"
  by simp

lemma part2_loop_iff:
  "part2_loop s ks \<longleftrightarrow>
     (\<exists>k \<in> set ks. length s mod k = 0 \<and> 2 \<le> length s div k \<and>
        concat (replicate (length s div k) (take k s)) = s)"
  (is "_ \<longleftrightarrow> (\<exists>k \<in> set ks. ?P k)")
proof (induction ks)
  case Nil
  show ?case by simp
next
  case (Cons k ks)
  show ?case
  proof (cases "?P k")
    case True
    then have "part2_loop s (k # ks)" by (simp add: Let_def)
    moreover have "\<exists>k' \<in> set (k # ks). ?P k'" using True by simp
    ultimately show ?thesis by blast
  next
    case False
    then have "length s mod k \<noteq> 0 \<or>
        \<not> (2 \<le> length s div k \<and> concat (replicate (length s div k) (take k s)) = s)"
      by simp
    then have "part2_loop s (k # ks) = part2_loop s ks"
      by (elim disjE) (auto simp: Let_def)
    moreover have "(\<exists>k' \<in> set (k # ks). ?P k') = (\<exists>k' \<in> set ks. ?P k')"
      using False by (rule bex_Cons_skip)
    ultimately show ?thesis using Cons.IH by (simp only:)
  qed
qed

lemma length_concat_replicate: "length (concat (replicate m g)) = m * length g"
  by (induction m) auto

lemma backref_plus_sound:
  "backref_plus g s \<Longrightarrow> g \<noteq> [] \<and> (\<exists>m\<ge>1. s = concat (replicate m g))"
proof (induction g s rule: backref_plus.induct)
  case (1 g s)
  from "1.prems" have g: "g \<noteq> []" and tk: "take (length g) s = g"
    by (subst (asm) backref_plus.simps, simp split: if_splits)+
  have s: "s = g @ drop (length g) s"
    using tk by (metis append_take_drop_id)
  show ?case
  proof (cases "drop (length g) s = []")
    case True
    with s have "s = concat (replicate 1 g)" by simp
    with g show ?thesis by blast
  next
    case False
    with "1.prems" g tk have "backref_plus g (drop (length g) s)"
      by (subst (asm) backref_plus.simps) simp
    with "1.IH" g tk False obtain m where "m \<ge> 1" "drop (length g) s = concat (replicate m g)"
      by auto
    with s have "s = concat (replicate (Suc m) g)" by simp
    with g show ?thesis by (intro conjI exI [of _ "Suc m"]) simp_all
  qed
qed

lemma backref_plus_complete:
  "g \<noteq> [] \<Longrightarrow> backref_plus g (concat (replicate (Suc m) g))"
proof (induction m)
  case 0
  then show ?case by (subst backref_plus.simps) simp
next
  case (Suc m)
  then show ?case by (subst backref_plus.simps) simp
qed

lemma backref_plus_iff:
  "backref_plus g s \<longleftrightarrow> g \<noteq> [] \<and> (\<exists>m\<ge>1. s = concat (replicate m g))"
proof
  assume "backref_plus g s"
  then show "g \<noteq> [] \<and> (\<exists>m\<ge>1. s = concat (replicate m g))" by (rule backref_plus_sound)
next
  assume r: "g \<noteq> [] \<and> (\<exists>m\<ge>1. s = concat (replicate m g))"
  then obtain m where "m \<ge> 1" "s = concat (replicate m g)" by blast
  then obtain m' where "s = concat (replicate (Suc m') g)" by (cases m) auto
  moreover from r have "g \<noteq> []" by simp
  ultimately show "backref_plus g s" using backref_plus_complete [of g m'] by simp
qed

lemma part2_loop_repeats:
  assumes "2 \<le> length s"
  shows "part2_loop s [1..<length s div 2 + 1] \<longleftrightarrow> repeats s"
proof
  assume "part2_loop s [1..<length s div 2 + 1]"
  then obtain k where k: "1 \<le> k" "k \<le> length s div 2" "length s mod k = 0"
      "concat (replicate (length s div k) (take k s)) = s"
    by (auto simp: part2_loop_iff)
  from k(1,2) assms have "k < length s" by linarith
  moreover from k(3) have "k dvd length s" by auto
  ultimately show "repeats s" using k(4) unfolding repeats_def by metis
next
  assume "repeats s"
  then obtain d where d: "d dvd length s" "d < length s"
      "s = concat (replicate (length s div d) (take d s))"
    unfolding repeats_def by blast
  from d(1) assms have d0: "0 < d" by (cases d) auto
  from d(1) obtain q where q: "length s = d * q" by (auto simp: dvd_def)
  with d(2) d0 have "2 \<le> q" by (cases q; cases "q - 1") auto
  with q d0 have div: "length s div d = q" "2 \<le> length s div d" by auto
  have "d * 2 \<le> length s" using q \<open>2 \<le> q\<close> by simp
  then have "d \<le> length s div 2" by simp
  with d0 d div show "part2_loop s [1..<length s div 2 + 1]"
    by (auto simp: part2_loop_iff intro!: bexI [of _ d])
qed

lemma is_invalid_part2_iff: "is_invalid_part2 n \<longleftrightarrow> repeats (str n)"
proof (cases "length (str n) < 2")
  case True
  then have "\<not> repeats (str n)"
    unfolding repeats_def by (auto simp: less_Suc_eq numeral_2_eq_2)
  with True show ?thesis by (simp add: is_invalid_part2_def Let_def)
next
  case False
  then show ?thesis
    using part2_loop_repeats [of "str n"] by (simp add: is_invalid_part2_def Let_def)
qed

lemma fullmatch_repeat_iff:
  assumes nl: "CHR 0x0A \<notin> set s"
  shows "fullmatch_repeat s \<longleftrightarrow> repeats s"
proof
  assume "fullmatch_repeat s"
  then obtain k m where k: "1 \<le> k" "k \<le> length s" and m: "1 \<le> m"
      and dr: "drop k s = concat (replicate m (take k s))"
    by (auto simp: fullmatch_repeat_def list_ex_iff Let_def backref_plus_iff)
  have "concat (replicate (Suc m) (take k s)) = take k s @ drop k s" using dr by simp
  then have s: "s = concat (replicate (Suc m) (take k s))" by simp
  have tk_len: "length (take k s) = k" using k by simp
  have "length s = length (concat (replicate (Suc m) (take k s)))"
    using s by (rule arg_cong [where f = length])
  then have len: "length s = Suc m * k"
    unfolding length_concat_replicate tk_len .
  with k m have "k dvd length s" "k < length s" "length s div k = Suc m" by auto
  with s show "repeats s" unfolding repeats_def by metis
next
  assume "repeats s"
  then obtain d where d: "d dvd length s" "d < length s"
      "s = concat (replicate (length s div d) (take d s))"
    unfolding repeats_def by blast
  from d(1,2) have d0: "0 < d" by (cases d) auto
  from d(1) obtain q where q: "length s = d * q" by (auto simp: dvd_def)
  with d(2) d0 have "2 \<le> q" by (cases q; cases "q - 1") auto
  then obtain m where qm: "q = Suc m" "1 \<le> m" by (cases q) auto
  from q d0 have "length s div d = q" by simp
  with d(3) qm have "s = take d s @ concat (replicate m (take d s))" by simp
  then have "drop d s = drop d (take d s @ concat (replicate m (take d s)))"
    by (rule arg_cong [where f = "drop d"])
  also have "\<dots> = concat (replicate m (take d s))" using d(2) by (simp add: min_def)
  finally have dr: "drop d s = concat (replicate m (take d s))" .
  have tk: "take d s \<noteq> []" using d0 d(2) by auto
  have "CHR 0x0A \<notin> set (take d s)" using nl by (meson in_set_takeD)
  with dr tk qm d0 d(2) show "fullmatch_repeat s"
    by (auto simp: fullmatch_repeat_def list_ex_iff Let_def backref_plus_iff intro!: bexI [of _ d])
qed

lemma pattern_finder_member:
  "n \<in> set (pattern_finder start stop) \<longleftrightarrow>
     start \<le> n \<and> n \<le> stop \<and> fullmatch_repeat (lstrip0 (str n))"
  by (auto simp: pattern_finder_def Let_def)


lemma str_single_digit:
  assumes "0 < n" and "n < 10"
  shows "length (str n) = 1"
proof -
  have "nat n < 10" using assms by simp
  then have "str_nat (nat n) = [digit_char (nat n)]"
    by (subst str_nat.simps) simp
  then show ?thesis using assms by (simp add: str_pos)
qed

text \<open>
  C3: for every positive integer \<open>n\<close>, the exact-double test, both as membership in the
  output of \<open>invalid_finder\<close> (for any range containing \<open>n\<close>) and as
  \<open>is_invalid_part1\<close>, holds iff the decimal representation of \<open>n\<close> has even length and
  its first half equals its second half; numbers with an odd number of digits and
  single-digit numbers never match.
\<close>

theorem exact_double_iff_halves_equal:
  assumes "0 < n" and "start \<le> n" and "n \<le> stop"
  shows "(n \<in> set (invalid_finder start stop) \<longleftrightarrow>
           even (length (str n)) \<and>
           take (length (str n) div 2) (str n) = drop (length (str n) div 2) (str n))
       \<and> (is_invalid_part1 n \<longleftrightarrow>
           even (length (str n)) \<and>
           take (length (str n) div 2) (str n) = drop (length (str n) div 2) (str n))
       \<and> (odd (length (str n)) \<longrightarrow>
           n \<notin> set (invalid_finder start stop) \<and> \<not> is_invalid_part1 n)
       \<and> (n < 10 \<longrightarrow>
           n \<notin> set (invalid_finder start stop) \<and> \<not> is_invalid_part1 n)"
proof -
  let ?s = "str n"
  let ?H = "take (length ?s div 2) ?s = drop (length ?s div 2) ?s"
  have a: "n \<in> set (invalid_finder start stop) \<longleftrightarrow> even (length ?s) \<and> ?H"
    using assms halves_equal_even [of ?s]
    by (auto simp: invalid_finder_member lstrip0_str)
  have b: "is_invalid_part1 n \<longleftrightarrow> even (length ?s) \<and> ?H"
    by (rule is_invalid_part1_iff)
  have c: "n < 10 \<longrightarrow> odd (length ?s)"
    using assms(1) str_single_digit [of n] by auto
  from a b c show ?thesis by blast
qed

theorem exact_double_iff_halves_equal_witness:
  "(0::int) < 1010 \<and> (1000::int) \<le> 1010 \<and> (1010::int) \<le> 1012
     \<and> 1010 \<in> set (invalid_finder 1000 1012) \<and> is_invalid_part1 1010
     \<and> (0::int) < 7 \<and> (7::int) < 10 \<and> odd (length (str 7))
     \<and> 7 \<notin> set (invalid_finder 1 9) \<and> \<not> is_invalid_part1 7"
proof -
  have e: "str 1010 = ''1010''" by code_simp
  have e7: "str 7 = ''7''" by code_simp
  have a: "1010 \<in> set (invalid_finder 1000 1012) \<and> is_invalid_part1 1010"
    using exact_double_iff_halves_equal [of 1010 1000 1012] by (simp add: e)
  have h: "(0::int) < 7" "(1::int) \<le> 7" "(7::int) \<le> 9" by simp_all
  from exact_double_iff_halves_equal [OF h]
  have "(7::int) < 10 \<longrightarrow> 7 \<notin> set (invalid_finder 1 9) \<and> \<not> is_invalid_part1 7"
    by blast
  then have b: "7 \<notin> set (invalid_finder 1 9) \<and> \<not> is_invalid_part1 7" by simp
  from a b show ?thesis by (simp add: e7)
qed

text \<open>
  C4: for every positive integer \<open>n\<close>, the general-repetition test, both as membership in
  the output of \<open>pattern_finder\<close> and as \<open>is_invalid_part2\<close>, holds iff some divisor
  \<open>d\<close> of the number of digits, smaller than it, rebuilds the digit string from its first
  \<open>d\<close> characters repeated \<open>len / d\<close> times.
\<close>

theorem general_repetition_iff_divisor:
  assumes "0 < n" and "start \<le> n" and "n \<le> stop"
  shows "(n \<in> set (pattern_finder start stop) \<longleftrightarrow>
           (\<exists>d. d dvd length (str n) \<and> d < length (str n) \<and>
                str n = concat (replicate (length (str n) div d) (take d (str n)))))
       \<and> (is_invalid_part2 n \<longleftrightarrow>
           (\<exists>d. d dvd length (str n) \<and> d < length (str n) \<and>
                str n = concat (replicate (length (str n) div d) (take d (str n)))))"
proof -
  have "n \<in> set (pattern_finder start stop) \<longleftrightarrow> repeats (str n)"
    using assms fullmatch_repeat_iff [OF newline_notin_str [OF assms(1)]]
    by (simp add: pattern_finder_member lstrip0_str)
  moreover have "is_invalid_part2 n \<longleftrightarrow> repeats (str n)"
    by (rule is_invalid_part2_iff)
  ultimately show ?thesis unfolding repeats_def by blast
qed

theorem general_repetition_iff_divisor_witness:
  "(0::int) < 2323 \<and> (2320::int) \<le> 2323 \<and> (2323::int) \<le> 2330
     \<and> 2323 \<in> set (pattern_finder 2320 2330) \<and> is_invalid_part2 2323"
proof -
  have e: "str 2323 = ''2323''" by code_simp
  have "(2::nat) dvd length (str 2323) \<and> 2 < length (str 2323) \<and>
      str 2323 = concat (replicate (length (str 2323) div 2) (take 2 (str 2323)))"
    by (simp add: e)
  then have "\<exists>d. d dvd length (str 2323) \<and> d < length (str 2323) \<and>
      str 2323 = concat (replicate (length (str 2323) div d) (take d (str 2323)))"
    by (rule exI)
  then show ?thesis
    using general_repetition_iff_divisor [of 2323 2320 2330] by simp
qed

text \<open>
  C10: for every positive integer \<open>n\<close> the two implementations agree: membership in the
  output of \<open>invalid_finder\<close> coincides with \<open>is_invalid_part1\<close>, and membership in the
  output of \<open>pattern_finder\<close> coincides with \<open>is_invalid_part2\<close>.
\<close>

theorem day2_implementations_agree:
  assumes "0 < n" and "start \<le> n" and "n \<le> stop"
  shows "(n \<in> set (invalid_finder start stop) \<longleftrightarrow> is_invalid_part1 n)
       \<and> (n \<in> set (pattern_finder start stop) \<longleftrightarrow> is_invalid_part2 n)"
proof -
  have "n \<in> set (invalid_finder start stop) \<longleftrightarrow> is_invalid_part1 n"
    using assms halves_equal_even [of "str n"]
    by (auto simp: invalid_finder_member lstrip0_str is_invalid_part1_iff)
  moreover have "n \<in> set (pattern_finder start stop) \<longleftrightarrow> is_invalid_part2 n"
    using assms fullmatch_repeat_iff [OF newline_notin_str [OF assms(1)]]
    by (simp add: pattern_finder_member lstrip0_str is_invalid_part2_iff)
  ultimately show ?thesis by blast
qed

theorem day2_implementations_agree_witness:
  "(0::int) < 1212 \<and> (1200::int) \<le> 1212 \<and> (1212::int) \<le> 1220
     \<and> 1212 \<in> set (invalid_finder 1200 1220) \<and> 1212 \<in> set (pattern_finder 1200 1220)"
proof -
  have "is_invalid_part1 1212" by code_simp
  moreover have "is_invalid_part2 1212" by code_simp
  ultimately show ?thesis
    using day2_implementations_agree [of 1212 1200 1220] by simp
qed

subsection \<open>Day 4: rounds, fixed point and termination\<close>

lemma count_at_less_4:
  "count_at g y x ds c < 4 \<longleftrightarrow>
     c + length (filter (\<lambda>(dy, dx). map_of g (y + dy, x + dx) = Some CHR ''@'') ds) < 4"
proof (induction ds arbitrary: c)
  case Nil
  show ?case by simp
next
  case (Cons d ds)
  obtain dy dx where d: "d = (dy, dx)" by (cases d)
  let ?n = "length (filter (\<lambda>(dy, dx). map_of g (y + dy, x + dx) = Some CHR ''@'') ds)"
  show ?case
  proof (cases "map_of g (y + dy, x + dx) = Some CHR ''@''")
    case True
    have "count_at g y x (d # ds) c = (if 4 \<le> c + 1 then c + 1 else count_at g y x ds (c + 1))"
      unfolding d using True by (simp add: Let_def)
    moreover have "count_at g y x ds (c + 1) < 4 \<longleftrightarrow> c + 1 + ?n < 4" by (rule Cons.IH)
    ultimately have "count_at g y x (d # ds) c < 4 \<longleftrightarrow> c + 1 + ?n < 4" by auto
    then show ?thesis unfolding d using True by simp
  next
    case False
    have "count_at g y x (d # ds) c = (if 4 \<le> c then c else count_at g y x ds c)"
      unfolding d using False by (simp add: Let_def)
    moreover have "count_at g y x ds c < 4 \<longleftrightarrow> c + ?n < 4" by (rule Cons.IH)
    ultimately have "count_at g y x (d # ds) c < 4 \<longleftrightarrow> c + ?n < 4" by auto
    then show ?thesis unfolding d using False by simp
  qed
qed

lemma square_distinct: "distinct square"
  by (simp add: square_def)

lemma abs_le_1_cases: "\<bar>a :: int\<bar> \<le> 1 \<longleftrightarrow> a = -1 \<or> a = 0 \<or> a = 1"
  by auto

lemma in_square_iff: "(dy, dx) \<in> set square \<longleftrightarrow> \<bar>dy\<bar> \<le> 1 \<and> \<bar>dx\<bar> \<le> 1 \<and> (dy, dx) \<noteq> (0, 0)"
  unfolding abs_le_1_cases by (auto simp: square_def)

lemma neighbours8_image: "neighbours8 (y, x) = (\<lambda>(dy, dx). (y + dy, x + dx)) ` set square"
proof (intro set_eqI iffI)
  fix p assume p: "p \<in> neighbours8 (y, x)"
  then have "(fst p - y, snd p - x) \<in> set square"
    unfolding in_square_iff by (auto simp: neighbours8_def prod_eq_iff)
  moreover have "p = (\<lambda>(dy, dx). (y + dy, x + dx)) (fst p - y, snd p - x)" by simp
  ultimately show "p \<in> (\<lambda>(dy, dx). (y + dy, x + dx)) ` set square" by (rule rev_image_eqI)
next
  fix p assume "p \<in> (\<lambda>(dy, dx). (y + dy, x + dx)) ` set square"
  then obtain dy dx where d: "(dy, dx) \<in> set square" and p: "p = (y + dy, x + dx)" by auto
  from d show "p \<in> neighbours8 (y, x)"
    unfolding in_square_iff p by (auto simp: neighbours8_def)
qed

lemma count_square_card:
  "length (filter (\<lambda>(dy, dx). map_of g (y + dy, x + dx) = Some CHR ''@'') square)
     = card (neighbours8 (y, x) \<inter> occupied g)"
proof -
  let ?sh = "\<lambda>(dy :: int, dx :: int). (y + dy, x + dx)"
  let ?D = "{d \<in> set square. ?sh d \<in> occupied g}"
  have inj: "inj_on ?sh ?D" by (auto simp: inj_on_def)
  have "length (filter (\<lambda>(dy, dx). map_of g (y + dy, x + dx) = Some CHR ''@'') square)
          = card {d \<in> set square. (\<lambda>(dy, dx). map_of g (y + dy, x + dx) = Some CHR ''@'') d}"
    using square_distinct by (simp add: distinct_length_filter Int_def conj_commute)
  also have "{d \<in> set square. (\<lambda>(dy, dx). map_of g (y + dy, x + dx) = Some CHR ''@'') d} = ?D"
    by (auto simp: occupied_def)
  also have "card ?D = card (?sh ` ?D)" using inj by (simp add: card_image)
  also have "?sh ` ?D = neighbours8 (y, x) \<inter> occupied g"
    unfolding neighbours8_image by auto
  finally show ?thesis .
qed

lemma count_at_square:
  "count_at g y x square 0 < 4 \<longleftrightarrow> card (neighbours8 (y, x) \<inter> occupied g) < 4"
  by (simp add: count_at_less_4 count_square_card)

lemma roll_scan_filter:
  "roll_scan g items =
     map (\<lambda>(k, v). (k, CHR ''.''))
       (filter (\<lambda>(k, v). v = CHR ''@'' \<and> card (neighbours8 k \<inter> occupied g) < 4) items)"
proof (induction items)
  case Nil
  show ?case by simp
next
  case (Cons item items)
  obtain k v where item: "item = (k, v)" by (cases item)
  have c: "count_at g (fst k) (snd k) square 0 < 4 \<longleftrightarrow> card (neighbours8 k \<inter> occupied g) < 4"
    using count_at_square [of g "fst k" "snd k"] by simp
  show ?case
    unfolding item
    by (cases "v = CHR ''@''"; cases "card (neighbours8 k \<inter> occupied g) < 4")
       (simp_all add: Let_def c Cons.IH)
qed

lemma roll_access_keys:
  "map fst (roll_access g) =
     map fst (filter (\<lambda>(k, v). v = CHR ''@'' \<and> card (neighbours8 k \<inter> occupied g) < 4) g)"
  unfolding roll_access_def roll_scan_filter by (induction g) auto

lemma roll_access_values: "(k, v) \<in> set (roll_access g) \<Longrightarrow> v = CHR ''.''"
  unfolding roll_access_def roll_scan_filter by auto

lemma roll_access_distinct: "distinct (map fst g) \<Longrightarrow> distinct (map fst (roll_access g))"
  unfolding roll_access_keys by (rule distinct_map_filter)

lemma roll_access_set:
  assumes "distinct (map fst g)"
  shows "fst ` set (roll_access g) = accessible g"
proof -
  have m: "\<And>k v. (k, v) \<in> set g \<longleftrightarrow> map_of g k = Some v"
    using assms by simp
  have "set (map fst (roll_access g)) =
      {k. (k, CHR ''@'') \<in> set g \<and> card (neighbours8 k \<inter> occupied g) < 4}"
    unfolding roll_access_keys by force
  also have "\<dots> = accessible g"
    unfolding m by (auto simp: accessible_def occupied_def)
  finally show ?thesis by simp
qed

lemma roll_access_length:
  assumes "distinct (map fst g)"
  shows "length (roll_access g) = card (accessible g)"
proof -
  have "card (set (map fst (roll_access g))) = length (map fst (roll_access g))"
    using roll_access_distinct [OF assms] by (rule distinct_card)
  then show ?thesis using roll_access_set [OF assms] by simp
qed


lemma dict_update_Cons: "dict_update g ((k, v) # rolls) = dict_update (AList.update k v g) rolls"
  by (simp add: dict_update_def)

lemma dict_update_map_of:
  "\<forall>(k, v) \<in> set rolls. v = CHR ''.'' \<Longrightarrow>
     map_of (dict_update g rolls) k = (if k \<in> fst ` set rolls then Some CHR ''.'' else map_of g k)"
proof (induction rolls arbitrary: g)
  case Nil
  show ?case by (simp add: dict_update_def)
next
  case (Cons r rolls)
  obtain k' v' where r: "r = (k', v')" by (cases r)
  from Cons.prems have v': "v' = CHR ''.''" and rest: "\<forall>(k, v) \<in> set rolls. v = CHR ''.''"
    by (auto simp: r)
  show ?case
    unfolding r dict_update_Cons Cons.IH [OF rest]
    by (simp add: update_conv' v')
qed

lemma dict_update_distinct:
  "distinct (map fst g) \<Longrightarrow> distinct (map fst (dict_update g rolls))"
proof (induction rolls arbitrary: g)
  case Nil
  then show ?case by (simp add: dict_update_def)
next
  case (Cons r rolls)
  obtain k' v' where r: "r = (k', v')" by (cases r)
  show ?case
    unfolding r dict_update_Cons
    by (rule Cons.IH) (simp add: distinct_update Cons.prems)
qed

lemma clear_round_map_of:
  assumes "distinct (map fst g)"
  shows "map_of (clear_round g) k = (if k \<in> accessible g then Some CHR ''.'' else map_of g k)"
proof -
  have "\<forall>(k, v) \<in> set (roll_access g). v = CHR ''.''"
    using roll_access_values by blast
  then show ?thesis
    unfolding clear_round_def by (simp add: dict_update_map_of roll_access_set [OF assms])
qed

lemma clear_round_distinct: "distinct (map fst g) \<Longrightarrow> distinct (map fst (clear_round g))"
  unfolding clear_round_def by (rule dict_update_distinct)

lemma funpow_clear_round_distinct:
  "distinct (map fst g) \<Longrightarrow> distinct (map fst ((clear_round ^^ i) g))"
  by (induction i) (simp_all add: clear_round_distinct)

lemma accessible_subset: "accessible g \<subseteq> occupied g"
  by (auto simp: accessible_def)

lemma occupied_clear_round:
  assumes "distinct (map fst g)"
  shows "occupied (clear_round g) = occupied g - accessible g"
  using accessible_subset [of g]
  by (auto simp: occupied_def clear_round_map_of [OF assms])

lemma finite_occupied: "finite (occupied g)"
proof -
  have "occupied g \<subseteq> dom (map_of g)" by (auto simp: occupied_def)
  then show ?thesis using finite_dom_map_of [of g] by (rule finite_subset)
qed

lemma roll_access_empty_iff:
  assumes "distinct (map fst g)"
  shows "roll_access g = [] \<longleftrightarrow> accessible g = {}"
  using roll_access_set [OF assms] by (metis image_is_empty set_empty)

lemma clear_loop_result:
  assumes "distinct (map fst g)"
  shows "\<exists>K. (\<forall>i<K. accessible ((clear_round ^^ i) g) \<noteq> {})
           \<and> accessible ((clear_round ^^ K) g) = {}
           \<and> clear_loop g t =
               Some (t + (\<Sum>i<K. card (accessible ((clear_round ^^ i) g))), (clear_round ^^ K) g)"
  using assms
proof (induction "card (occupied g)" arbitrary: g t rule: less_induct)
  case less
  note d = \<open>distinct (map fst g)\<close>
  show ?case
  proof (cases "roll_access g = []")
    case True
    then have "accessible g = {}" using roll_access_empty_iff [OF d] by simp
    moreover have "clear_loop g t = Some (t, g)"
      by (subst clear_loop.simps) (simp add: True Let_def)
    ultimately show ?thesis by (intro exI [of _ 0]) simp
  next
    case False
    then have ne: "accessible g \<noteq> {}" using roll_access_empty_iff [OF d] by simp
    let ?g' = "clear_round g"
    have d': "distinct (map fst ?g')" using d by (rule clear_round_distinct)
    have "occupied ?g' \<subset> occupied g"
      using occupied_clear_round [OF d] ne accessible_subset [of g] by auto
    then have "card (occupied ?g') < card (occupied g)"
      using finite_occupied by (rule psubset_card_mono [rotated])
    from less.hyps [OF this d', of "t + card (accessible g)"]
    obtain K where K1: "\<forall>i<K. accessible ((clear_round ^^ i) ?g') \<noteq> {}"
      and K2: "accessible ((clear_round ^^ K) ?g') = {}"
      and K3: "clear_loop ?g' (t + card (accessible g)) =
          Some (t + card (accessible g) + (\<Sum>i<K. card (accessible ((clear_round ^^ i) ?g'))),
                (clear_round ^^ K) ?g')"
      by blast
    have shift: "\<And>i. (clear_round ^^ i) ?g' = (clear_round ^^ Suc i) g"
      by (simp add: funpow_swap1)
    have a: "\<forall>i<Suc K. accessible ((clear_round ^^ i) g) \<noteq> {}"
    proof (intro allI impI)
      fix i assume "i < Suc K"
      show "accessible ((clear_round ^^ i) g) \<noteq> {}"
      proof (cases i)
        case 0
        then show ?thesis using ne by simp
      next
        case (Suc j)
        with \<open>i < Suc K\<close> have "j < K" by simp
        with K1 have "accessible ((clear_round ^^ j) ?g') \<noteq> {}" by blast
        then show ?thesis unfolding shift Suc .
      qed
    qed
    have b: "accessible ((clear_round ^^ Suc K) g) = {}"
      using K2 unfolding shift .
    have sum: "(\<Sum>i<Suc K. card (accessible ((clear_round ^^ i) g)))
        = card (accessible g) + (\<Sum>i<K. card (accessible ((clear_round ^^ i) ?g')))"
      unfolding shift by (subst sum.lessThan_Suc_shift) simp
    have "clear_loop g t = clear_loop ?g' (t + length (roll_access g))"
      by (subst clear_loop.simps) (simp add: False clear_round_def Let_def)
    also have "\<dots> = clear_loop ?g' (t + card (accessible g))"
      by (simp add: roll_access_length [OF d])
    also note K3
    finally have c: "clear_loop g t =
        Some (t + (\<Sum>i<Suc K. card (accessible ((clear_round ^^ i) g))), (clear_round ^^ Suc K) g)"
      unfolding sum shift by (simp add: add.assoc)
    from a b c show ?thesis by blast
  qed
qed

lemma build_row_distinct:
  "distinct (map fst d) \<Longrightarrow>
     distinct (map fst (fold (\<lambda>(x, c) d'. AList.update (f x) c d') row d))"
  by (induction row arbitrary: d) (auto simp: distinct_update)

lemma build_rows_distinct:
  "distinct (map fst d) \<Longrightarrow>
     distinct (map fst (fold (\<lambda>(y, line) d. fold (\<lambda>(x, c) d'. AList.update (int y, int x) c d')
        (enumerate 0 line) d) rows d))"
proof (induction rows arbitrary: d)
  case Nil
  then show ?case by simp
next
  case (Cons r rows)
  obtain y line where r: "r = (y, line)" by (cases r)
  show ?case
    unfolding r fold_Cons comp_apply prod.case
    by (rule Cons.IH) (rule build_row_distinct [OF Cons.prems])
qed

lemma build_grid_distinct: "distinct (map fst (build_grid input_lines))"
  unfolding build_grid_def by (rule build_rows_distinct) simp


text \<open>
  C5: in every grid, one round clears exactly the occupied cells with fewer than four
  occupied cells among their eight neighbours, judged on the grid as it was when the round
  began; the clears are applied after the scan, every other cell keeps its value.  Part 1
  is the number of cells cleared by the first round, Part 2 the sum of the numbers cleared
  by the rounds up to the first round that clears nothing.
\<close>

theorem round_clears_accessible_cells:
  assumes "distinct (map fst g)"
  shows "fst ` set (roll_access g) =
           {k. map_of g k = Some CHR ''@'' \<and>
               card {p \<in> neighbours8 k. map_of g p = Some CHR ''@''} < 4}
       \<and> (\<forall>k. map_of (dict_update g (roll_access g)) k =
               (if k \<in> fst ` set (roll_access g) then Some CHR ''.'' else map_of g k))
       \<and> (\<exists>K. (\<forall>i<K. roll_access ((clear_round ^^ i) g) \<noteq> [])
               \<and> roll_access ((clear_round ^^ K) g) = []
               \<and> day4_solve g =
                   Some (card (fst ` set (roll_access g)),
                         \<Sum>i<K. card (fst ` set (roll_access ((clear_round ^^ i) g)))))"
proof -
  have acc: "accessible g = {k. map_of g k = Some CHR ''@'' \<and>
               card {p \<in> neighbours8 k. map_of g p = Some CHR ''@''} < 4}"
    by (simp add: accessible_def occupied_def Int_def)
  have 1: "fst ` set (roll_access g) = {k. map_of g k = Some CHR ''@'' \<and>
               card {p \<in> neighbours8 k. map_of g p = Some CHR ''@''} < 4}"
    using roll_access_set [OF assms] acc by simp
  have 2: "\<forall>k. map_of (dict_update g (roll_access g)) k =
               (if k \<in> fst ` set (roll_access g) then Some CHR ''.'' else map_of g k)"
    using clear_round_map_of [OF assms] roll_access_set [OF assms]
    by (simp add: clear_round_def)
  from clear_loop_result [OF assms, of 0]
  obtain K where K1: "\<forall>i<K. accessible ((clear_round ^^ i) g) \<noteq> {}"
    and K2: "accessible ((clear_round ^^ K) g) = {}"
    and K3: "clear_loop g 0 =
        Some (0 + (\<Sum>i<K. card (accessible ((clear_round ^^ i) g))), (clear_round ^^ K) g)"
    by blast
  have d: "\<And>i. distinct (map fst ((clear_round ^^ i) g))"
    using assms by (rule funpow_clear_round_distinct)
  have a: "\<forall>i<K. roll_access ((clear_round ^^ i) g) \<noteq> []"
    using K1 roll_access_empty_iff [OF d] by simp
  have b: "roll_access ((clear_round ^^ K) g) = []"
    using K2 roll_access_empty_iff [OF d] by simp
  have c: "day4_solve g =
      Some (card (fst ` set (roll_access g)),
            \<Sum>i<K. card (fst ` set (roll_access ((clear_round ^^ i) g))))"
    unfolding day4_solve_def K3
    by (simp add: roll_access_length [OF assms] roll_access_set [OF assms] roll_access_set [OF d])
  from a b c have 3: "\<exists>K. (\<forall>i<K. roll_access ((clear_round ^^ i) g) \<noteq> [])
               \<and> roll_access ((clear_round ^^ K) g) = []
               \<and> day4_solve g =
                   Some (card (fst ` set (roll_access g)),
                         \<Sum>i<K. card (fst ` set (roll_access ((clear_round ^^ i) g))))"
    by blast
  from 1 2 3 show ?thesis by (intro conjI)
qed

theorem round_clears_accessible_cells_witness:
  "distinct (map fst (build_grid [''@@@'', ''@@@'', ''.@.'']))
   \<and> fst ` set (roll_access (build_grid [''@@@'', ''@@@'', ''.@.''])) = {(0, 0), (0, 2), (2, 1)}
   \<and> day4_solve (build_grid [''@@@'', ''@@@'', ''.@.'']) = Some (3, 7)
   \<and> {(0, 0), (0, 2), (2, 1)} =
       {k. map_of (build_grid [''@@@'', ''@@@'', ''.@.'']) k = Some CHR ''@'' \<and>
           card {p \<in> neighbours8 k.
                 map_of (build_grid [''@@@'', ''@@@'', ''.@.'']) p = Some CHR ''@''} < 4}"
proof -
  let ?G = "build_grid [''@@@'', ''@@@'', ''.@.'']"
  have d: "distinct (map fst ?G)" by code_simp
  have r: "roll_access ?G = [((0, 0), CHR ''.''), ((0, 2), CHR ''.''), ((2, 1), CHR ''.'')]"
    by code_simp
  have s: "day4_solve ?G = Some (3, 7)" by code_simp
  show ?thesis
    using round_clears_accessible_cells [OF d] d s by (simp add: r)
qed

text \<open>
  C6: for every finite grid the clearing loop terminates, on a grid where a round clears
  nothing; the set of occupied cells never grows from one round to the next, and shrinks
  strictly in every round that clears something.
\<close>

theorem clearing_loop_terminates:
  assumes "distinct (map fst g)"
  shows "(\<exists>total final. clear_loop g t = Some (total, final) \<and> roll_access final = [])
       \<and> (\<forall>i. occupied ((clear_round ^^ Suc i) g) \<subseteq> occupied ((clear_round ^^ i) g))
       \<and> (\<forall>i. roll_access ((clear_round ^^ i) g) \<noteq> [] \<longrightarrow>
               occupied ((clear_round ^^ Suc i) g) \<subset> occupied ((clear_round ^^ i) g))"
proof -
  have d: "\<And>i. distinct (map fst ((clear_round ^^ i) g))"
    using assms by (rule funpow_clear_round_distinct)
  from clear_loop_result [OF assms, of t]
  obtain K where K2: "accessible ((clear_round ^^ K) g) = {}"
    and K3: "clear_loop g t =
        Some (t + (\<Sum>i<K. card (accessible ((clear_round ^^ i) g))), (clear_round ^^ K) g)"
    by blast
  have "roll_access ((clear_round ^^ K) g) = []"
    using K2 roll_access_empty_iff [OF d] by simp
  with K3 have 1: "\<exists>total final. clear_loop g t = Some (total, final) \<and> roll_access final = []"
    by blast
  have step: "\<And>i. occupied ((clear_round ^^ Suc i) g) =
      occupied ((clear_round ^^ i) g) - accessible ((clear_round ^^ i) g)"
    using occupied_clear_round [OF d] by simp
  have 2: "\<forall>i. occupied ((clear_round ^^ Suc i) g) \<subseteq> occupied ((clear_round ^^ i) g)"
    unfolding step by blast
  have 3: "\<forall>i. roll_access ((clear_round ^^ i) g) \<noteq> [] \<longrightarrow>
               occupied ((clear_round ^^ Suc i) g) \<subset> occupied ((clear_round ^^ i) g)"
  proof (intro allI impI)
    fix i assume "roll_access ((clear_round ^^ i) g) \<noteq> []"
    then have "accessible ((clear_round ^^ i) g) \<noteq> {}"
      using roll_access_empty_iff [OF d] by simp
    then show "occupied ((clear_round ^^ Suc i) g) \<subset> occupied ((clear_round ^^ i) g)"
      unfolding step using accessible_subset [of "(clear_round ^^ i) g"] by blast
  qed
  from 1 2 3 show ?thesis by (intro conjI)
qed

theorem clearing_loop_terminates_witness:
  "distinct (map fst (build_grid [''@@'', ''@.'']))
   \<and> clear_loop (build_grid [''@@'', ''@.'']) 0 =
       Some (3, [((0, 0), CHR ''.''), ((0, 1), CHR ''.''), ((1, 0), CHR ''.''), ((1, 1), CHR ''.'')])
   \<and> roll_access (build_grid [''@@'', ''@.'']) \<noteq> []
   \<and> occupied (clear_round (build_grid [''@@'', ''@.''])) \<subset> occupied (build_grid [''@@'', ''@.''])"
proof -
  let ?G = "build_grid [''@@'', ''@.'']"
  have d: "distinct (map fst ?G)" by code_simp
  have c: "clear_loop ?G 0 =
      Some (3, [((0, 0), CHR ''.''), ((0, 1), CHR ''.''), ((1, 0), CHR ''.''), ((1, 1), CHR ''.'')])"
    by code_simp
  have r: "roll_access ?G \<noteq> []" by code_simp
  have "roll_access ((clear_round ^^ 0) ?G) \<noteq> [] \<longrightarrow>
      occupied ((clear_round ^^ Suc 0) ?G) \<subset> occupied ((clear_round ^^ 0) ?G)"
    using clearing_loop_terminates [OF d, of 0] by blast
  with r d c show ?thesis by simp
qed

subsection \<open>Day 7: counting the paths\<close>

lemma traverse_straight:
  "(\<And>y'. y < y' \<Longrightarrow> y' \<le> grid_len \<Longrightarrow> grid (y', x) = Some CHR ''.'') \<Longrightarrow>
     traverse grid grid_len row_len (y, x) prev_pos = 1"
proof (induction "nat (grid_len - y)" arbitrary: y prev_pos)
  case 0
  then have "y + 1 > grid_len" by simp
  then show ?case by (subst traverse.simps) simp
next
  case (Suc n)
  from Suc.hyps(2) have le: "y + 1 \<le> grid_len" and n: "n = nat (grid_len - (y + 1))"
    by linarith+
  have cell: "grid (y + 1, x) = Some CHR ''.''"
    using le by (intro Suc.prems) simp_all
  have "traverse grid grid_len row_len (y + 1, x) (Some (y, x)) = 1"
    using n by (rule Suc.hyps(1)) (rule Suc.prems, simp_all)
  then show ?case
    using le cell by (subst traverse.simps) simp
qed

lemma traverse_down_to:
  "y \<le> ys \<Longrightarrow> ys \<le> grid_len \<Longrightarrow>
     (\<And>y'. y < y' \<Longrightarrow> y' \<le> ys \<Longrightarrow> grid (y', x) = Some CHR ''.'') \<Longrightarrow>
     \<exists>prev'. traverse grid grid_len row_len (y, x) prev_pos
              = traverse grid grid_len row_len (ys, x) prev'"
proof (induction "nat (ys - y)" arbitrary: y prev_pos)
  case 0
  then have "y = ys" by simp
  then show ?case by blast
next
  case (Suc n)
  from Suc.hyps(2) have lt: "y + 1 \<le> ys" and n: "n = nat (ys - (y + 1))"
    by linarith+
  have cell: "grid (y + 1, x) = Some CHR ''.''"
    using lt by (intro Suc.prems(3)) simp_all
  have step: "traverse grid grid_len row_len (y, x) prev_pos
      = traverse grid grid_len row_len (y + 1, x) (Some (y, x))"
    using lt Suc.prems(2) cell by (subst traverse.simps) simp
  have "\<exists>prev'. traverse grid grid_len row_len (y + 1, x) (Some (y, x))
      = traverse grid grid_len row_len (ys, x) prev'"
    using n lt Suc.prems(2) by (rule Suc.hyps(1)) (rule Suc.prems(3), simp_all)
  then show ?case unfolding step .
qed

lemma traverse_splitter:
  "y + 1 \<le> grid_len \<Longrightarrow> grid (y + 1, x) = Some CHR ''^'' \<Longrightarrow>
     traverse grid grid_len row_len (y, x) prev_pos =
       (if 0 \<le> x - 1 \<and> x - 1 \<le> row_len
        then traverse grid grid_len row_len (y + 1, x - 1) (Some (y, x)) else 0)
     + (if 0 \<le> x + 1 \<and> x + 1 \<le> row_len
        then traverse grid grid_len row_len (y + 1, x + 1) (Some (y, x)) else 0)"
  by (subst traverse.simps) simp

text \<open>
  C7, as the code has it: in every grid the path count of \<open>solve_2\<close> satisfies: below a
  cell whose next cell down is a splitter, the count is the sum of the counts through the
  left and the right branch, a branch counting only when its column lies in
  \<open>[0, row_len]\<close>; a straight run of \<open>.\<close> cells down to the last row counts 1; and a run
  down to one splitter counts exactly 2 when both branch columns pass the column check
  and every cell below each branch, down to the last row, is a \<open>.\<close> cell of the grid.
\<close>

theorem traverse_branching_path_count:
  "(y + 1 \<le> grid_len \<and> grid (y + 1, x) = Some CHR ''^'' \<longrightarrow>
      traverse grid grid_len row_len (y, x) prev_pos =
        (if 0 \<le> x - 1 \<and> x - 1 \<le> row_len
         then traverse grid grid_len row_len (y + 1, x - 1) (Some (y, x)) else 0)
      + (if 0 \<le> x + 1 \<and> x + 1 \<le> row_len
         then traverse grid grid_len row_len (y + 1, x + 1) (Some (y, x)) else 0))
   \<and> ((\<forall>y'. y < y' \<and> y' \<le> grid_len \<longrightarrow> grid (y', x) = Some CHR ''.'') \<longrightarrow>
      traverse grid grid_len row_len (y, x) prev_pos = 1)
   \<and> (y < ys \<and> ys \<le> grid_len
       \<and> (\<forall>y'. y < y' \<and> y' < ys \<longrightarrow> grid (y', x) = Some CHR ''.'')
       \<and> grid (ys, x) = Some CHR ''^''
       \<and> 0 \<le> x - 1 \<and> x + 1 \<le> row_len
       \<and> (\<forall>y'. ys < y' \<and> y' \<le> grid_len \<longrightarrow>
             grid (y', x - 1) = Some CHR ''.'' \<and> grid (y', x + 1) = Some CHR ''.'') \<longrightarrow>
      traverse grid grid_len row_len (y, x) prev_pos = 2)"
proof (intro conjI impI)
  assume "y + 1 \<le> grid_len \<and> grid (y + 1, x) = Some CHR ''^''"
  then show "traverse grid grid_len row_len (y, x) prev_pos =
        (if 0 \<le> x - 1 \<and> x - 1 \<le> row_len
         then traverse grid grid_len row_len (y + 1, x - 1) (Some (y, x)) else 0)
      + (if 0 \<le> x + 1 \<and> x + 1 \<le> row_len
         then traverse grid grid_len row_len (y + 1, x + 1) (Some (y, x)) else 0)"
    by (simp only: traverse_splitter)
next
  assume "\<forall>y'. y < y' \<and> y' \<le> grid_len \<longrightarrow> grid (y', x) = Some CHR ''.''"
  then show "traverse grid grid_len row_len (y, x) prev_pos = 1"
    by (intro traverse_straight) simp
next
  assume a: "y < ys \<and> ys \<le> grid_len
       \<and> (\<forall>y'. y < y' \<and> y' < ys \<longrightarrow> grid (y', x) = Some CHR ''.'')
       \<and> grid (ys, x) = Some CHR ''^''
       \<and> 0 \<le> x - 1 \<and> x + 1 \<le> row_len
       \<and> (\<forall>y'. ys < y' \<and> y' \<le> grid_len \<longrightarrow>
             grid (y', x - 1) = Some CHR ''.'' \<and> grid (y', x + 1) = Some CHR ''.'')"
  from a have "y \<le> ys - 1" "ys - 1 \<le> grid_len"
    "\<And>y'. y < y' \<Longrightarrow> y' \<le> ys - 1 \<Longrightarrow> grid (y', x) = Some CHR ''.''"
    by auto
  then have "\<exists>prev'. traverse grid grid_len row_len (y, x) prev_pos
      = traverse grid grid_len row_len (ys - 1, x) prev'"
    by (rule traverse_down_to)
  then obtain prev' where down: "traverse grid grid_len row_len (y, x) prev_pos
      = traverse grid grid_len row_len (ys - 1, x) prev'"
    by blast
  from a have sp: "ys - 1 + 1 \<le> grid_len" "grid (ys - 1 + 1, x) = Some CHR ''^''"
    by simp_all
  have l: "traverse grid grid_len row_len (ys, x - 1) (Some (ys - 1, x)) = 1"
    using a by (intro traverse_straight) simp
  have r: "traverse grid grid_len row_len (ys, x + 1) (Some (ys - 1, x)) = 1"
    using a by (intro traverse_straight) simp
  have "traverse grid grid_len row_len (ys - 1, x) prev' = 2"
    using traverse_splitter [of "ys - 1" grid_len grid x row_len prev'] sp a l r by simp
  with down show "traverse grid grid_len row_len (y, x) prev_pos = 2" by simp
qed

theorem traverse_branching_path_count_witness:
  "map_of (build_grid [''.S.'', ''.^.'', ''...'']) (1, 1) = Some CHR ''^''
   \<and> traverse (map_of (build_grid [''.S.'', ''.^.'', ''...''])) 2 3 (0, 1) None
       = traverse (map_of (build_grid [''.S.'', ''.^.'', ''...''])) 2 3 (1, 0) (Some (0, 1))
       + traverse (map_of (build_grid [''.S.'', ''.^.'', ''...''])) 2 3 (1, 2) (Some (0, 1))
   \<and> traverse (map_of (build_grid [''.S.'', ''.^.'', ''...''])) 2 3 (1, 0) (Some (0, 1)) = 1
   \<and> traverse (map_of (build_grid [''.S.'', ''.^.'', ''...''])) 2 3 (0, 1) None = 2
   \<and> solve_2 [''.S.'', ''.^.'', ''...''] = Inr 2"
proof -
  let ?G = "map_of (build_grid [''.S.'', ''.^.'', ''...''])"
  have g11: "?G (1, 1) = Some CHR ''^''" by code_simp
  have g20: "?G (2, 0) = Some CHR ''.''" by code_simp
  have g22: "?G (2, 2) = Some CHR ''.''" by code_simp
  have st: "find_start [''.S.'', ''.^.'', ''...''] = Some (0, 1)" by code_simp
  have below: "\<forall>y'. 1 < y' \<and> y' \<le> 2 \<longrightarrow>
      ?G (y', 1 - 1) = Some CHR ''.'' \<and> ?G (y', 1 + 1) = Some CHR ''.''"
  proof (intro allI impI)
    fix y' :: int
    assume "1 < y' \<and> y' \<le> 2"
    then have "y' = 2" by simp
    then show "?G (y', 1 - 1) = Some CHR ''.'' \<and> ?G (y', 1 + 1) = Some CHR ''.''"
      using g20 g22 by simp
  qed
  have left: "\<forall>y'. 1 < y' \<and> y' \<le> 2 \<longrightarrow> ?G (y', 0) = Some CHR ''.''"
  proof (intro allI impI)
    fix y' :: int
    assume "1 < y' \<and> y' \<le> 2"
    then have "y' = 2" by simp
    then show "?G (y', 0) = Some CHR ''.''"
      using g20 by simp
  qed
  have above: "\<forall>y' :: int. 0 < y' \<and> y' < 1 \<longrightarrow> ?G (y', 1) = Some CHR ''.''"
  proof (intro allI impI)
    fix y' :: int
    assume "0 < y' \<and> y' < 1"
    then have False by linarith
    then show "?G (y', 1) = Some CHR ''.''" ..
  qed
  have a: "traverse ?G 2 3 (0, 1) None
      = traverse ?G 2 3 (1, 0) (Some (0, 1)) + traverse ?G 2 3 (1, 2) (Some (0, 1))"
    using traverse_branching_path_count [of 0 2 ?G 1 3 None 1] g11 by simp
  have b: "traverse ?G 2 3 (1, 0) (Some (0, 1)) = 1"
    using traverse_branching_path_count [of 1 2 ?G 0 3 "Some (0, 1)" 2] left by blast
  have c: "traverse ?G 2 3 (0, 1) None = 2"
    using traverse_branching_path_count [of 0 2 ?G 1 3 None 1] g11 below above by simp
  have "solve_2 [''.S.'', ''.^.'', ''...''] = Inr 2"
    using c st by (simp add: solve_2_def grid_len_of_def row_len_of_def)
  with g11 a b c show ?thesis by (intro conjI)
qed

text \<open>
  The claim as stated, that one splitter row with no further splits always gives 2 paths,
  fails for a splitter in the last column: the right branch passes the column check
  (column 2 is not above \<open>row_len = 2\<close>) but leaves the grid, the cell below it is missing,
  and that branch counts 0.  The same happens to the left branch in the first column.
\<close>

theorem solve_2_edge_splitter_counterexample:
  "count_list (concat [''.S'', ''.^'', ''..'']) CHR ''^'' = 1
   \<and> solve_2 [''.S'', ''.^'', ''..''] = Inr 1
   \<and> count_list (concat [''S.'', ''^.'', ''..'']) CHR ''^'' = 1
   \<and> solve_2 [''S.'', ''^.'', ''..''] = Inr 1"
proof -
  have a: "count_list (concat [''.S'', ''.^'', ''..'']) CHR ''^'' = 1" by simp
  have b: "solve_2 [''.S'', ''.^'', ''..''] = Inr 1" by code_simp
  have c: "count_list (concat [''S.'', ''^.'', ''..'']) CHR ''^'' = 1" by simp
  have d: "solve_2 [''S.'', ''^.'', ''..''] = Inr 1" by code_simp
  from a b c d show ?thesis by (intro conjI)
qed

subsection \<open>Day 8: the edge that unifies the groups\<close>

text \<open>
  C2: the early stop of \<open>p1\<close> is claimed to report the first edge, in ascending distance
  order, after which all points are in one group, as processing every edge and testing
  after each would.  For the four points \<open>(0,0,0)\<close>, \<open>(1,0,0)\<close>, \<open>(10,0,0)\<close>, \<open>(12,0,0)\<close>
  the distances are pairwise different, the third edge joins the two groups of two, and
  \<open>p1\<close> reports no edge at all: the branch that merges two groups skips the test.
  \<open>main\<close> then fails on the missing edge.
\<close>

theorem p1_misses_unifying_merge:
  "sort_key snd (pair_distances [(0, 0, 0), (1, 0, 0), (10, 0, 0), (12, 0, 0)]) =
     [(((0, 0, 0), (1, 0, 0)), 1), (((10, 0, 0), (12, 0, 0)), 4),
      (((1, 0, 0), (10, 0, 0)), 81), (((0, 0, 0), (10, 0, 0)), 100),
      (((1, 0, 0), (12, 0, 0)), 121), (((0, 0, 0), (12, 0, 0)), 144)]
   \<and> p1 (sort_key snd (pair_distances [(0, 0, 0), (1, 0, 0), (10, 0, 0), (12, 0, 0)]))
        None (Some 4) = (4, None)
   \<and> first_unifying_edge
        (sort_key snd (pair_distances [(0, 0, 0), (1, 0, 0), (10, 0, 0), (12, 0, 0)]))
        (Some 4) \<lparr>connections = [], last_connection = None, group_id = 1\<rparr>
        = Some ((1, 0, 0), (10, 0, 0))
   \<and> day8_main [(0, 0, 0), (1, 0, 0), (10, 0, 0), (12, 0, 0)] = Inl TypeError"
proof -
  let ?pts = "[(0, 0, 0), (1, 0, 0), (10, 0, 0), (12, 0, 0)] :: point list"
  let ?ds = "[(((0, 0, 0), (1, 0, 0)), 1), (((10, 0, 0), (12, 0, 0)), 4),
      (((1, 0, 0), (10, 0, 0)), 81), (((0, 0, 0), (10, 0, 0)), 100),
      (((1, 0, 0), (12, 0, 0)), 121), (((0, 0, 0), (12, 0, 0)), 144)]
      :: ((point \<times> point) \<times> int) list"
  have s: "sort_key snd (pair_distances ?pts) = ?ds" by code_simp
  have p: "p1 ?ds None (Some 4) = (4, None)" by code_simp
  have f: "first_unifying_edge ?ds (Some 4)
      \<lparr>connections = [], last_connection = None, group_id = 1\<rparr> = Some ((1, 0, 0), (10, 0, 0))"
    by code_simp
  have m: "day8_main ?pts = Inl TypeError" by code_simp
  show ?thesis unfolding s using p f m by (intro conjI) simp_all
qed

subsection \<open>Day 10: the search finds the least positive number of presses\<close>

lemma press_button_length: "press_button l b = Inr l' \<Longrightarrow> length l' = length l"
proof (induction b arbitrary: l)
  case Nil
  then show ?case by simp
next
  case (Cons idx b)
  let ?n = "int (length l)"
  let ?j = "nat (if idx < 0 then idx + ?n else idx)"
  let ?l1 = "l[?j := (if l ! ?j = CHR ''#'' then CHR ''.'' else CHR ''#'')]"
  from Cons.prems have "press_button ?l1 b = Inr l'"
    by (simp add: Let_def split: if_splits)
  then have "length l' = length ?l1" by (rule Cons.IH)
  then show ?case by simp
qed

lemma press_button_ok:
  "\<forall>idx \<in> set b. - int (length l) \<le> idx \<and> idx < int (length l) \<Longrightarrow>
     \<exists>l'. press_button l b = Inr l'"
proof (induction b arbitrary: l)
  case Nil
  show ?case by simp
next
  case (Cons idx b)
  let ?n = "int (length l)"
  let ?j = "nat (if idx < 0 then idx + ?n else idx)"
  let ?l1 = "l[?j := (if l ! ?j = CHR ''#'' then CHR ''.'' else CHR ''#'')]"
  from Cons.prems have rng: "\<not> (idx < - ?n \<or> ?n \<le> idx)" by auto
  have "\<forall>idx \<in> set b. - int (length ?l1) \<le> idx \<and> idx < int (length ?l1)"
    using Cons.prems by simp
  then obtain l' where "press_button ?l1 b = Inr l'" using Cons.IH by blast
  then have "press_button l (idx # b) = Inr l'"
    using rng by (simp add: Let_def)
  then show ?case by blast
qed

lemma pressf_eq:
  "\<forall>idx \<in> set b. - int (length l) \<le> idx \<and> idx < int (length l) \<Longrightarrow>
     press_button l b = Inr (pressf l b)"
  using press_button_ok [of b l] by (auto simp: pressf_def)

lemma press_seq_append:
  "press_seq l (xs @ ys) =
     (case press_seq l xs of Inl e \<Rightarrow> Inl e | Inr l' \<Rightarrow> press_seq l' ys)"
  by (induction xs arbitrary: l) (auto split: sum.splits)

lemma press_seq_length: "press_seq l bs = Inr l' \<Longrightarrow> length l' = length l"
proof (induction bs arbitrary: l)
  case Nil
  then show ?case by simp
next
  case (Cons b bs)
  then obtain l1 where 1: "press_button l b = Inr l1" and 2: "press_seq l1 bs = Inr l'"
    by (auto split: sum.splits)
  from Cons.IH [OF 2] press_button_length [OF 1] show ?case by simp
qed

lemma reach_in_length: "reach_in s B n l \<Longrightarrow> length l = length s"
  unfolding reach_in_def using press_seq_length by blast

lemma reach_in_snoc:
  assumes "reach_in s B p l" and "b \<in> set B" and "press_button l b = Inr l'"
  shows "reach_in s B (Suc p) l'"
proof -
  from assms(1) obtain bs where bs: "length bs = p" "set bs \<subseteq> set B" "press_seq s bs = Inr l"
    unfolding reach_in_def by blast
  have "press_seq s (bs @ [b]) = Inr l'"
    by (simp add: press_seq_append bs(3) assms(3))
  moreover have "length (bs @ [b]) = Suc p" "set (bs @ [b]) \<subseteq> set B"
    using bs assms(2) by simp_all
  ultimately show ?thesis unfolding reach_in_def by blast
qed

lemma reach_in_Suc_front:
  assumes "reach_in s B (Suc k) l"
  shows "\<exists>b \<in> set B. \<exists>s'. press_button s b = Inr s' \<and> reach_in s' B k l"
proof -
  from assms obtain bs where bs: "length bs = Suc k" "set bs \<subseteq> set B" "press_seq s bs = Inr l"
    unfolding reach_in_def by blast
  then obtain b bs' where c: "bs = b # bs'" by (cases bs) auto
  with bs(3) obtain s' where s': "press_button s b = Inr s'" "press_seq s' bs' = Inr l"
    by (auto split: sum.splits)
  have "reach_in s' B k l"
    unfolding reach_in_def using bs(1,2) c s'(2) by auto
  with s'(1) bs(2) c show ?thesis by auto
qed

lemma reach_in_1: "reach_in s B 1 l \<Longrightarrow> \<exists>b \<in> set B. press_button s b = Inr l"
proof -
  assume "reach_in s B 1 l"
  then have "reach_in s B (Suc 0) l" by simp
  from reach_in_Suc_front [OF this]
  obtain b s' where "b \<in> set B" "press_button s b = Inr s'" "reach_in s' B 0 l" by blast
  moreover from this(3) have "s' = l" by (simp add: reach_in_def)
  ultimately show ?thesis by blast
qed

lemma reaches_reach_in: "reaches light B n = reach_in (map (\<lambda>_. CHR ''.'') light) B n light"
  by (simp add: reaches_def reach_in_def)

lemma expand_valid:
  assumes "\<forall>b \<in> set bs. \<forall>idx \<in> set b. - int (length cl) \<le> idx \<and> idx < int (length cl)"
  shows "expand light cl p bs =
           (if \<exists>b \<in> set bs. pressf cl b = light then Inr (Found (p + 1))
            else Inr (Queued (map (\<lambda>b. (pressf cl b, b, p + 1)) bs)))"
  using assms
proof (induction bs)
  case Nil
  show ?case by simp
next
  case (Cons b bs)
  have pb: "press_button cl b = Inr (pressf cl b)"
    using Cons.prems by (intro pressf_eq) simp
  have IH: "expand light cl p bs =
           (if \<exists>b \<in> set bs. pressf cl b = light then Inr (Found (p + 1))
            else Inr (Queued (map (\<lambda>b. (pressf cl b, b, p + 1)) bs)))"
    using Cons.prems by (intro Cons.IH) simp
  show ?case
  proof (cases "pressf cl b = light")
    case True
    then show ?thesis by (simp add: pb)
  next
    case False
    then show ?thesis by (simp add: pb IH)
  qed
qed

lemma bfs_inv_head:
  assumes "bfs_inv light B n ((l, b, p) # q) v"
  shows "p < n" and "b \<in> set B" and "reach_in (map (\<lambda>_. CHR ''.'') light) B p l"
    and "\<forall>e \<in> set q. p \<le> snd (snd e)" and "\<forall>e \<in> set q. snd (snd e) \<le> Suc p"
    and "\<forall>w \<in> v. fst (snd w) \<le> p"
proof -
  from assms have i1: "\<forall>e \<in> set ((l, b, p) # q). fst (snd e) \<in> set B \<and>
         reach_in (map (\<lambda>_. CHR ''.'') light) B (snd (snd e)) (fst e)"
    and i2: "sorted (map (\<lambda>e. snd (snd e)) ((l, b, p) # q))"
    and i3: "\<forall>e \<in> set ((l, b, p) # q). \<forall>e' \<in> set ((l, b, p) # q). snd (snd e') \<le> Suc (snd (snd e))"
    and i4: "\<forall>w \<in> v. \<forall>e \<in> set ((l, b, p) # q). fst (snd w) \<le> snd (snd e)"
    and i5: "\<exists>e \<in> set ((l, b, p) # q). (fst e, snd (snd e), fst (snd e)) \<notin> v \<and>
         (\<exists>k\<ge>1. snd (snd e) + k = n \<and> reach_in (fst e) B k light)"
    unfolding bfs_inv_def by blast+
  from i1 show "b \<in> set B" and "reach_in (map (\<lambda>_. CHR ''.'') light) B p l" by auto
  from i2 show le: "\<forall>e \<in> set q. p \<le> snd (snd e)" by auto
  from i3 show "\<forall>e \<in> set q. snd (snd e) \<le> Suc p" by auto
  from i4 show "\<forall>w \<in> v. fst (snd w) \<le> p" by auto
  from i5 obtain e k where e: "e \<in> set ((l, b, p) # q)" and k: "1 \<le> k" "snd (snd e) + k = n"
    by blast
  from e le have "p \<le> snd (snd e)" by auto
  with k show "p < n" by linarith
qed

lemma bfs_inv_nonempty: "\<not> bfs_inv light B n [] v"
  by (simp add: bfs_inv_def)

lemma bfs_inv_skip:
  assumes inv: "bfs_inv light B n ((l, b, p) # q) v" and vis: "(l, p, b) \<in> v"
  shows "bfs_inv light B n q v"
proof -
  from inv have i1: "\<forall>e \<in> set ((l, b, p) # q). fst (snd e) \<in> set B \<and>
         reach_in (map (\<lambda>_. CHR ''.'') light) B (snd (snd e)) (fst e)"
    and i2: "sorted (map (\<lambda>e. snd (snd e)) ((l, b, p) # q))"
    and i3: "\<forall>e \<in> set ((l, b, p) # q). \<forall>e' \<in> set ((l, b, p) # q). snd (snd e') \<le> Suc (snd (snd e))"
    and i4: "\<forall>w \<in> v. \<forall>e \<in> set ((l, b, p) # q). fst (snd w) \<le> snd (snd e)"
    and i5: "\<exists>e \<in> set ((l, b, p) # q). (fst e, snd (snd e), fst (snd e)) \<notin> v \<and>
         (\<exists>k\<ge>1. snd (snd e) + k = n \<and> reach_in (fst e) B k light)"
    unfolding bfs_inv_def by blast+
  from i5 obtain e where e: "e \<in> set ((l, b, p) # q)" "(fst e, snd (snd e), fst (snd e)) \<notin> v"
      "\<exists>k\<ge>1. snd (snd e) + k = n \<and> reach_in (fst e) B k light"
    by blast
  from e(2) vis have "e \<noteq> (l, b, p)" by auto
  with e(1) have "e \<in> set q" by simp
  with e(2,3) have j5: "\<exists>e \<in> set q. (fst e, snd (snd e), fst (snd e)) \<notin> v \<and>
         (\<exists>k\<ge>1. snd (snd e) + k = n \<and> reach_in (fst e) B k light)"
    by blast
  from i1 have j1: "\<forall>e \<in> set q. fst (snd e) \<in> set B \<and>
         reach_in (map (\<lambda>_. CHR ''.'') light) B (snd (snd e)) (fst e)" by simp
  from i2 have j2: "sorted (map (\<lambda>e. snd (snd e)) q)" by simp
  from i3 have j3: "\<forall>e \<in> set q. \<forall>e' \<in> set q. snd (snd e') \<le> Suc (snd (snd e))" by simp
  from i4 have j4: "\<forall>w \<in> v. \<forall>e \<in> set q. fst (snd w) \<le> snd (snd e)" by simp
  from j1 j2 j3 j4 j5 show ?thesis unfolding bfs_inv_def by (intro conjI)
qed

lemma valid_buttons_length:
  assumes "valid_buttons light B" and "length l = length light"
  shows "\<forall>b \<in> set B. \<forall>idx \<in> set b. - int (length l) \<le> idx \<and> idx < int (length l)"
  using assms by (simp add: valid_buttons_def)

lemma bfs_inv_found:
  assumes valid: "valid_buttons light B"
    and least: "\<forall>m. 0 < m \<and> m < n \<longrightarrow> \<not> reaches light B m"
    and inv: "bfs_inv light B n ((l, b, p) # q) v"
    and hit: "\<exists>b' \<in> set B. pressf l b' = light"
  shows "p + 1 = n"
proof -
  note h = bfs_inv_head [OF inv]
  have len: "length l = length light" using reach_in_length [OF h(3)] by simp
  from hit obtain b' where b': "b' \<in> set B" "pressf l b' = light" by blast
  have "press_button l b' = Inr (pressf l b')"
    using valid_buttons_length [OF valid len] b'(1) by (intro pressf_eq) blast
  with b'(2) have "press_button l b' = Inr light" by simp
  from reach_in_snoc [OF h(3) b'(1) this] have "reaches light B (Suc p)"
    by (simp add: reaches_reach_in)
  with least have "\<not> Suc p < n" by auto
  with h(1) show ?thesis by simp
qed

lemma bfs_inv_expand:
  assumes valid: "valid_buttons light B"
    and inv: "bfs_inv light B n ((l, b, p) # q) v"
    and miss: "\<not> (\<exists>b' \<in> set B. pressf l b' = light)"
  shows "bfs_inv light B n (q @ map (\<lambda>b'. (pressf l b', b', p + 1)) B) (insert (l, p, b) v)"
proof -
  let ?off = "map (\<lambda>_. CHR ''.'') light"
  let ?es = "map (\<lambda>b'. (pressf l b', b', p + 1)) B"
  note h = bfs_inv_head [OF inv]
  have len: "length l = length light" using reach_in_length [OF h(3)] by simp
  have pb: "\<And>b'. b' \<in> set B \<Longrightarrow> press_button l b' = Inr (pressf l b')"
    using valid_buttons_length [OF valid len] by (intro pressf_eq) blast
  from inv have i1: "\<forall>e \<in> set ((l, b, p) # q). fst (snd e) \<in> set B \<and>
         reach_in ?off B (snd (snd e)) (fst e)"
    and i2: "sorted (map (\<lambda>e. snd (snd e)) ((l, b, p) # q))"
    and i5: "\<exists>e \<in> set ((l, b, p) # q). (fst e, snd (snd e), fst (snd e)) \<notin> v \<and>
         (\<exists>k\<ge>1. snd (snd e) + k = n \<and> reach_in (fst e) B k light)"
    unfolding bfs_inv_def by blast+
  have es: "snd (snd e) = p + 1 \<and> fst (snd e) \<in> set B \<and> fst e = pressf l (fst (snd e))"
    if "e \<in> set ?es" for e
  proof -
    from that obtain b' where "b' \<in> set B" "e = (pressf l b', b', p + 1)"
      unfolding set_map by blast
    then show ?thesis by simp
  qed
  have lo: "p \<le> snd (snd e)" if "e \<in> set (q @ ?es)" for e
  proof -
    from that consider "e \<in> set q" | "e \<in> set ?es" unfolding set_append by blast
    then show ?thesis
    proof cases
      case 1
      with h(4) show ?thesis by blast
    next
      case 2
      from es [OF 2] show ?thesis by simp
    qed
  qed
  have hi: "snd (snd e) \<le> p + 1" if "e \<in> set (q @ ?es)" for e
  proof -
    from that consider "e \<in> set q" | "e \<in> set ?es" unfolding set_append by blast
    then show ?thesis
    proof cases
      case 1
      with h(5) show ?thesis by simp
    next
      case 2
      from es [OF 2] show ?thesis by simp
    qed
  qed
  have j1: "\<forall>e \<in> set (q @ ?es). fst (snd e) \<in> set B \<and> reach_in ?off B (snd (snd e)) (fst e)"
  proof
    fix e assume "e \<in> set (q @ ?es)"
    then consider "e \<in> set q" | "e \<in> set ?es" unfolding set_append by blast
    then show "fst (snd e) \<in> set B \<and> reach_in ?off B (snd (snd e)) (fst e)"
    proof cases
      case 1
      with i1 show ?thesis by simp
    next
      case 2
      from es [OF 2] have a: "snd (snd e) = Suc p" "fst (snd e) \<in> set B"
        "fst e = pressf l (fst (snd e))" by simp_all
      from reach_in_snoc [OF h(3) a(2) pb [OF a(2)]] a show ?thesis by simp
    qed
  qed
  have pr_es: "map (\<lambda>e. snd (snd e)) ?es = replicate (length B) (p + 1)"
    by (simp add: comp_def map_replicate_const)
  have s1: "sorted (map (\<lambda>e. snd (snd e)) ?es)"
    unfolding pr_es by (rule sorted_replicate)
  from i2 have s2: "sorted (map (\<lambda>e. snd (snd e)) q)" by simp
  have s3: "\<forall>x \<in> set (map (\<lambda>e. snd (snd e)) q). \<forall>y \<in> set (map (\<lambda>e. snd (snd e)) ?es). x \<le> y"
    unfolding pr_es using h(5) by auto
  have j2: "sorted (map (\<lambda>e. snd (snd e)) (q @ ?es))"
    unfolding map_append sorted_append using s1 s2 s3 by (intro conjI)
  have j3: "\<forall>e \<in> set (q @ ?es). \<forall>e' \<in> set (q @ ?es). snd (snd e') \<le> Suc (snd (snd e))"
  proof (intro ballI)
    fix e e' assume "e \<in> set (q @ ?es)" "e' \<in> set (q @ ?es)"
    from lo [OF this(1)] hi [OF this(2)] show "snd (snd e') \<le> Suc (snd (snd e))" by simp
  qed
  have j4: "\<forall>w \<in> insert (l, p, b) v. \<forall>e \<in> set (q @ ?es). fst (snd w) \<le> snd (snd e)"
  proof (intro ballI)
    fix w e assume w: "w \<in> insert (l, p, b) v" and e: "e \<in> set (q @ ?es)"
    from w h(6) have "fst (snd w) \<le> p" by auto
    with lo [OF e] show "fst (snd w) \<le> snd (snd e)" by simp
  qed
  from i5 obtain e0 k where e0: "e0 \<in> set ((l, b, p) # q)"
      "(fst e0, snd (snd e0), fst (snd e0)) \<notin> v"
      and k: "1 \<le> k" "snd (snd e0) + k = n" "reach_in (fst e0) B k light"
    by blast
  have j5: "\<exists>e \<in> set (q @ ?es). (fst e, snd (snd e), fst (snd e)) \<notin> insert (l, p, b) v \<and>
         (\<exists>k\<ge>1. snd (snd e) + k = n \<and> reach_in (fst e) B k light)"
  proof (cases "e0 = (l, b, p)")
    case True
    from k(1) obtain k' where k': "k = Suc k'" by (cases k) auto
    from k(3) True have "reach_in l B (Suc k') light" by (simp add: k')
    from reach_in_Suc_front [OF this]
    obtain b1 s' where b1: "b1 \<in> set B" "press_button l b1 = Inr s'" "reach_in s' B k' light"
      by blast
    from b1(2) pb [OF b1(1)] have s': "s' = pressf l b1" by simp
    have "k' \<noteq> 0"
    proof
      assume "k' = 0"
      with b1(3) have "s' = light" by (simp add: reach_in_def)
      with s' b1(1) miss show False by blast
    qed
    then have k1: "1 \<le> k'" by simp
    let ?e1 = "(pressf l b1, b1, p + 1)"
    have in_es: "?e1 \<in> set (q @ ?es)" using b1(1) by simp
    have "(pressf l b1, p + 1, b1) \<notin> v"
    proof
      assume "(pressf l b1, p + 1, b1) \<in> v"
      with h(6) have "fst (snd (pressf l b1, p + 1, b1)) \<le> p" by (rule bspec)
      then show False by simp
    qed
    then have fresh: "(fst ?e1, snd (snd ?e1), fst (snd ?e1)) \<notin> insert (l, p, b) v" by simp
    have "snd (snd ?e1) + k' = n" using k(2) True k' by simp
    moreover have "reach_in (fst ?e1) B k' light" using b1(3) s' by simp
    ultimately have "\<exists>k\<ge>1. snd (snd ?e1) + k = n \<and> reach_in (fst ?e1) B k light"
      using k1 by blast
    with in_es fresh show ?thesis by blast
  next
    case False
    with e0(1) have in_q: "e0 \<in> set (q @ ?es)" by simp
    have "(fst e0, snd (snd e0), fst (snd e0)) \<noteq> (l, p, b)"
      using False by (cases e0) auto
    with e0(2) have "(fst e0, snd (snd e0), fst (snd e0)) \<notin> insert (l, p, b) v" by simp
    with in_q k show ?thesis by blast
  qed
  from j1 j2 j3 j4 j5 show ?thesis unfolding bfs_inv_def by (intro conjI)
qed

lemma search_finds_least:
  assumes valid: "valid_buttons light B"
    and least: "\<forall>m. 0 < m \<and> m < n \<longrightarrow> \<not> reaches light B m"
    and inv0: "bfs_inv light B n q0 v0"
  shows "search light B q0 v0 = Some (Inr (Some n))"
proof -
  let ?off = "map (\<lambda>_. CHR ''.'') light"
  define R where "R = (\<lambda>bs. case press_seq ?off bs of Inl e \<Rightarrow> [] | Inr l \<Rightarrow> l)
      ` {bs. set bs \<subseteq> set B \<and> length bs \<le> n}"
  define U where "U = R \<times> {..<n} \<times> set B"
  have "finite {bs. set bs \<subseteq> set B \<and> length bs \<le> n}"
    by (rule finite_lists_length_le) simp
  then have "finite R" unfolding R_def by (rule finite_imageI)
  then have finU: "finite U" unfolding U_def by simp
  have inU: "(l, p, b) \<in> U" if "bfs_inv light B n ((l, b, p) # q) v" for l b p q v
  proof -
    note h = bfs_inv_head [OF that]
    from h(3) obtain bs where bs: "length bs = p" "set bs \<subseteq> set B" "press_seq ?off bs = Inr l"
      unfolding reach_in_def by blast
    have "bs \<in> {bs. set bs \<subseteq> set B \<and> length bs \<le> n}" using bs(1,2) h(1) by simp
    moreover have "l = (case press_seq ?off bs of Inl e \<Rightarrow> [] | Inr l \<Rightarrow> l)"
      by (simp add: bs(3))
    ultimately have "l \<in> R" unfolding R_def by (rule rev_image_eqI)
    with h(1,2) show ?thesis unfolding U_def by simp
  qed
  have main: "bfs_inv light B n q v \<Longrightarrow> search light B q v = Some (Inr (Some n))" for q v
  proof (induction "card (U - v)" arbitrary: q v rule: less_induct)
    case less
    have inner: "bfs_inv light B n q' v \<Longrightarrow> search light B q' v = Some (Inr (Some n))" for q'
    proof (induction q')
      case Nil
      then show ?case using bfs_inv_nonempty by blast
    next
      case (Cons e q')
      obtain l b p where e: "e = (l, b, p)" by (cases e)
      note inv = Cons.prems [unfolded e]
      show ?case
      proof (cases "(l, p, b) \<in> v")
        case True
        have "search light B (e # q') v = search light B q' v"
          unfolding e by (subst search.simps) (simp add: True)
        also have "\<dots> = Some (Inr (Some n))"
          by (rule Cons.IH) (rule bfs_inv_skip [OF inv True])
        finally show ?thesis .
      next
        case False
        note h = bfs_inv_head [OF inv]
        have len: "length l = length light" using reach_in_length [OF h(3)] by simp
        have ex: "expand light l p B =
            (if \<exists>b' \<in> set B. pressf l b' = light then Inr (Found (p + 1))
             else Inr (Queued (map (\<lambda>b'. (pressf l b', b', p + 1)) B)))"
          by (rule expand_valid) (rule valid_buttons_length [OF valid len])
        show ?thesis
        proof (cases "\<exists>b' \<in> set B. pressf l b' = light")
          case True
          have pn: "p + 1 = n" by (rule bfs_inv_found [OF valid least inv True])
          have "expand light l p B = Inr (Found n)" unfolding ex using True pn by simp
          then show ?thesis
            unfolding e by (subst search.simps) (simp add: False)
        next
          case miss: False
          let ?es = "map (\<lambda>b'. (pressf l b', b', p + 1)) B"
          have inv': "bfs_inv light B n (q' @ ?es) (insert (l, p, b) v)"
            by (rule bfs_inv_expand [OF valid inv miss])
          have mem: "(l, p, b) \<in> U - v" using inU [OF inv] False by simp
          have eq: "U - insert (l, p, b) v = (U - v) - {(l, p, b)}" by blast
          have fin: "finite (U - v)" using finU by simp
          have "card (U - insert (l, p, b) v) < card (U - v)"
            unfolding eq using fin mem by (rule card_Diff1_less)
          from less.hyps [OF this inv']
          have rec: "search light B (q' @ ?es) (insert (l, p, b) v) = Some (Inr (Some n))" .
          have "expand light l p B = Inr (Queued ?es)" unfolding ex using miss by simp
          with rec show ?thesis
            unfolding e by (subst search.simps) (simp add: False)
        qed
      qed
    qed
    show ?case by (rule inner) (rule less.prems)
  qed
  from inv0 show ?thesis by (rule main)
qed

lemma bfs_inv_initial:
  assumes pos: "0 < n" and r: "reaches light B n"
  shows "bfs_inv light B n (map (\<lambda>b. (map (\<lambda>_. CHR ''.'') light, b, 0)) B) {}"
proof -
  let ?off = "map (\<lambda>_. CHR ''.'') light"
  let ?q = "map (\<lambda>b. (?off, b, 0 :: nat)) B"
  from pos obtain k where k: "n = Suc k" by (cases n) auto
  from r have rn: "reach_in ?off B n light" by (simp add: reaches_reach_in)
  then have "reach_in ?off B (Suc k) light" by (simp add: k)
  from reach_in_Suc_front [OF this] obtain b0 where b0: "b0 \<in> set B" by blast
  have el: "fst e = ?off \<and> fst (snd e) \<in> set B \<and> snd (snd e) = 0" if "e \<in> set ?q" for e
  proof -
    from that obtain b where "b \<in> set B" "e = (?off, b, 0)" unfolding set_map by blast
    then show ?thesis by simp
  qed
  have r0: "reach_in ?off B 0 ?off" by (simp add: reach_in_def)
  have j1: "\<forall>e \<in> set ?q. fst (snd e) \<in> set B \<and> reach_in ?off B (snd (snd e)) (fst e)"
    using el r0 by simp
  have "map (\<lambda>e. snd (snd e)) ?q = replicate (length B) 0"
    by (simp add: comp_def map_replicate_const)
  then have j2: "sorted (map (\<lambda>e. snd (snd e)) ?q)" by (simp add: sorted_replicate)
  have j3: "\<forall>e \<in> set ?q. \<forall>e' \<in> set ?q. snd (snd e') \<le> Suc (snd (snd e))"
    using el by simp
  have j4: "\<forall>w \<in> {}. \<forall>e \<in> set ?q. fst (snd w) \<le> snd (snd e)" by simp
  have "(?off, b0, 0) \<in> set ?q" using b0 by simp
  moreover have "(fst (?off, b0, 0 :: nat), snd (snd (?off, b0, 0 :: nat)), fst (snd (?off, b0, 0 :: nat))) \<notin> {}"
    by simp
  moreover have "\<exists>k'\<ge>1. snd (snd (?off, b0, 0 :: nat)) + k' = n \<and> reach_in (fst (?off, b0, 0 :: nat)) B k' light"
    using pos rn by (intro exI [of _ n]) simp
  ultimately have j5: "\<exists>e \<in> set ?q. (fst e, snd (snd e), fst (snd e)) \<notin> {} \<and>
         (\<exists>k\<ge>1. snd (snd e) + k = n \<and> reach_in (fst e) B k light)"
    by blast
  from j1 j2 j3 j4 j5 show ?thesis unfolding bfs_inv_def by (intro conjI)
qed

lemma p1_step_least:
  assumes "valid_buttons light buttons" and "0 < n" and "reaches light buttons n"
    and "\<forall>m. 0 < m \<and> m < n \<longrightarrow> \<not> reaches light buttons m"
  shows "p1_step light buttons = Some (Inr (Some n))"
  unfolding p1_step_def
  by (rule search_finds_least [OF assms(1) assms(4) bfs_inv_initial [OF assms(2) assms(3)]])

text \<open>
  C1, as the code has it: for a step whose buttons only name indices inside the light
  list and whose target is produced from the all-off pattern by some sequence of at least
  one press, the search of \<open>p1\<close>, which skips entries already seen with the same light
  pattern, number of presses and button, records the least number \<open>n \<ge> 1\<close> of presses
  that produces the target; and \<open>p1\<close> adds this number to the sum over the other steps.
\<close>

theorem p1_records_least_positive_presses:
  assumes "valid_buttons light buttons" and "0 < n" and "reaches light buttons n"
    and "\<forall>m. 0 < m \<and> m < n \<longrightarrow> \<not> reaches light buttons m"
  shows "p1_step light buttons = Some (Inr (Some n))
       \<and> (\<forall>steps t. p1_day10 steps = Some (Inr t) \<longrightarrow>
             p1_day10 ((light, buttons, voltage) # steps) = Some (Inr (n + t)))"
proof -
  have "p1_step light buttons = Some (Inr (Some n))"
    using assms by (rule p1_step_least)
  then show ?thesis by simp
qed

theorem p1_records_least_positive_presses_witness:
  "valid_buttons ''##'' [[0], [1]] \<and> reaches ''##'' [[0], [1]] 2
   \<and> \<not> reaches ''##'' [[0], [1]] 1
   \<and> p1_step ''##'' [[0], [1]] = Some (Inr (Some 2))
   \<and> p1_day10 [(''##'', [[0], [1]], ())] = Some (Inr 2)"
proof -
  have v: "valid_buttons ''##'' [[0], [1]]" by (simp add: valid_buttons_def)
  have p01: "press_seq (map (\<lambda>_. CHR ''.'') ''##'') [[0], [1]] = Inr ''##''" by code_simp
  have p0: "press_seq (map (\<lambda>_. CHR ''.'') ''##'') [[0]] = Inr ''#.''" by code_simp
  have p1: "press_seq (map (\<lambda>_. CHR ''.'') ''##'') [[1]] = Inr ''.#''" by code_simp
  have r2: "reaches ''##'' [[0], [1]] 2"
    unfolding reaches_def using p01 by (intro exI [of _ "[[0], [1]]"]) simp
  have r1: "\<not> reaches ''##'' [[0], [1]] 1"
  proof
    assume "reaches ''##'' [[0], [1]] 1"
    then obtain bs where bs: "length bs = 1" "set bs \<subseteq> set [[0], [1 :: int]]"
        "press_seq (map (\<lambda>_. CHR ''.'') ''##'') bs = Inr ''##''"
      unfolding reaches_def by blast
    from bs(1) obtain b where b: "bs = [b]" by (cases bs) auto
    with bs(2) have "b = [0] \<or> b = [1]" by simp
    then show False
    proof
      assume "b = [0]"
      with bs(3) b have "press_seq (map (\<lambda>_. CHR ''.'') ''##'') [[0]] = Inr ''##''" by simp
      then show False unfolding p0 by simp
    next
      assume "b = [1]"
      with bs(3) b have "press_seq (map (\<lambda>_. CHR ''.'') ''##'') [[1]] = Inr ''##''" by simp
      then show False unfolding p1 by simp
    qed
  qed
  have least: "\<forall>m. 0 < m \<and> m < (2 :: nat) \<longrightarrow> \<not> reaches ''##'' [[0], [1]] m"
  proof (intro allI impI)
    fix m :: nat
    assume "0 < m \<and> m < 2"
    then have "m = 1" by simp
    with r1 show "\<not> reaches ''##'' [[0], [1]] m" by simp
  qed
  have pos: "0 < (2 :: nat)" by simp
  note t = p1_records_least_positive_presses [OF v pos r2 least, of "()"]
  from t have a: "p1_step ''##'' [[0], [1]] = Some (Inr (Some 2))" by (rule conjunct1)
  have e: "p1_day10 ([] :: (light \<times> button list \<times> unit) list) = Some (Inr 0)" by simp
  from t [THEN conjunct2, rule_format, OF e]
  have c: "p1_day10 [(''##'', [[0], [1]], ())] = Some (Inr 2)" by simp
  from v r2 r1 a c show ?thesis by (intro conjI)
qed

text \<open>
  The claim as stated fails where the target is the all-off pattern itself: no press is
  needed, but the search compares the target only with patterns obtained by a press, and
  records 2 (the one button pressed twice).
\<close>

theorem p1_all_off_target_counterexample:
  "reaches ''..'' [[0]] 0 \<and> p1_step ''..'' [[0]] = Some (Inr (Some 2))"
proof -
  have "reaches ''..'' [[0]] 0"
    unfolding reaches_def by (intro exI [of _ "[]"]) simp
  moreover have "p1_step ''..'' [[0]] = Some (Inr (Some 2))" by code_simp
  ultimately show ?thesis by (rule conjI)
qed

subsection \<open>The printed lines\<close>

lemma prints_two_parts_intro: "prints_two_parts [''Part 1: '' @ v1, ''Part 2: '' @ v2]"
  by (simp add: prints_two_parts_def)

lemma line_loop_lines:
  "line_loop f lines = Inr (printed, p2_total) \<Longrightarrow>
     \<exists>vs. length vs = length lines \<and>
          printed = map (\<lambda>(line, v). ''Line: '' @ line @ '' -> '' @ str v) (zip lines vs)"
proof (induction lines arbitrary: printed p2_total)
  case Nil
  then show ?case by simp
next
  case (Cons line lines)
  from Cons.prems obtain res printed' rest_sum where res: "f line = Inr res"
    and rest: "line_loop f lines = Inr (printed', rest_sum)"
    and printed: "printed = (''Line: '' @ line @ '' -> '' @ str res) # printed'"
    by (auto split: sum.splits)
  from Cons.IH [OF rest] obtain vs where vs: "length vs = length lines"
    "printed' = map (\<lambda>(line, v). ''Line: '' @ line @ '' -> '' @ str v) (zip lines vs)"
    by blast
  have "length (res # vs) = length (line # lines)" using vs(1) by simp
  moreover have "printed =
      map (\<lambda>(line, v). ''Line: '' @ line @ '' -> '' @ str v) (zip (line # lines) (res # vs))"
    using printed vs(2) by simp
  ultimately show ?case by blast
qed

lemma day4_main_prints: "\<exists>out. day4_main input_lines = Some out \<and> prints_two_parts out"
proof -
  from clear_loop_result [OF build_grid_distinct, of input_lines 0]
  obtain total final where "clear_loop (build_grid input_lines) 0 = Some (total, final)"
    by blast
  then have "day4_main input_lines =
      Some [''Part 1: '' @ str (int (length (roll_access (build_grid input_lines)))),
            ''Part 2: '' @ str (int total)]"
    by (simp add: day4_main_def day4_solve_def)
  then show ?thesis using prints_two_parts_intro by blast
qed

lemma day7_main_prints: "day7_main input_lines = Inr out \<Longrightarrow> prints_two_parts out"
proof -
  assume "day7_main input_lines = Inr out"
  then obtain v1 v2 where "out = [''Part 1: '' @ v1, ''Part 2: '' @ v2]"
    unfolding day7_main_def by (auto split: sum.splits)
  then show ?thesis using prints_two_parts_intro by simp
qed

lemma day8_main_prints: "day8_main coords = Inr out \<Longrightarrow> prints_two_parts out"
proof -
  assume "day8_main coords = Inr out"
  then obtain v1 v2 where "out = [''Part 1: '' @ v1, ''Part 2: '' @ v2]"
    unfolding day8_main_def by (auto simp: Let_def split: prod.splits option.splits)
  then show ?thesis using prints_two_parts_intro by simp
qed

lemma day05_main_prints: "day05_main ranges ingredients = Inr out \<Longrightarrow> prints_two_parts out"
proof -
  assume "day05_main ranges ingredients = Inr out"
  then obtain v1 v2 where "out = [''Part 1: '' @ v1, ''Part 2: '' @ v2]"
    unfolding day05_main_def by (auto simp: Let_def split: sum.splits)
  then show ?thesis using prints_two_parts_intro by simp
qed

lemma day6_main_prints: "day6_main file_lines = Inr out \<Longrightarrow> prints_two_parts out"
proof -
  assume "day6_main file_lines = Inr out"
  then obtain v1 v2 where "out = [''Part 1: '' @ v1, ''Part 2: '' @ v2]"
    unfolding day6_main_def by (auto split: sum.splits)
  then show ?thesis using prints_two_parts_intro by simp
qed

lemma day09_main_prints:
  "day09_main make_polygon contains coords = Inr out \<Longrightarrow> prints_two_parts out"
proof -
  assume "day09_main make_polygon contains coords = Inr out"
  then obtain v1 v2 where "out = [''Part 1: '' @ v1, ''Part 2: '' @ v2]"
    unfolding day09_main_def by (auto simp: Let_def split: prod.splits sum.splits)
  then show ?thesis using prints_two_parts_intro by simp
qed

lemma day10_main_prints: "day10_main solver steps = Some (Inr out) \<Longrightarrow> prints_two_parts out"
proof -
  assume "day10_main solver steps = Some (Inr out)"
  then obtain v1 v2 where "out = [''Part 1: '' @ v1, ''Part 2: '' @ v2]"
    unfolding day10_main_def by (auto split: option.splits sum.splits)
  then show ?thesis using prints_two_parts_intro by simp
qed

lemma day1_main_prints:
  "day1_main lines = Inr out \<Longrightarrow>
     \<exists>v1 v2. out = [''Number of times landed on 0: '' @ str v1,
                    ''Number of times clicked to 0: '' @ str v2]"
  unfolding day1_main_def main_1_def main_2_def by (auto split: sum.splits)

lemma day03_main_prints:
  assumes "day03_main lines = Inr out"
  shows "\<exists>vs. length vs = length lines
           \<and> take (length lines) out =
               map (\<lambda>(line, v). ''Line: '' @ line @ '' -> '' @ str v) (zip lines vs)
           \<and> prints_two_parts (drop (length lines) out)"
proof -
  from assms obtain p1_total printed p2_total
    where l: "line_loop (\<lambda>line. largest_12_volts_grouped line 12) lines = Inr (printed, p2_total)"
    and out: "out = printed @ [''Part 1: '' @ str p1_total, ''Part 2: '' @ str p2_total]"
    unfolding day03_main_def by (auto split: sum.splits)
  from line_loop_lines [OF l] obtain vs where vs: "length vs = length lines"
    "printed = map (\<lambda>(line, v). ''Line: '' @ line @ '' -> '' @ str v) (zip lines vs)"
    by blast
  have len: "length printed = length lines" using vs by simp
  have "take (length lines) out = printed" using out len by simp
  moreover have "drop (length lines) out = [''Part 1: '' @ str p1_total, ''Part 2: '' @ str p2_total]"
    using out len by simp
  ultimately show ?thesis using vs prints_two_parts_intro by auto
qed

lemma day3_main_prints:
  assumes "day3_main lines = Inr out"
  shows "\<exists>vs. length vs = length lines
           \<and> take (length lines) out =
               map (\<lambda>(line, v). ''Line: '' @ line @ '' -> '' @ str v) (zip lines vs)
           \<and> prints_two_parts (drop (length lines) out)"
proof -
  from assms obtain p1_total printed p2_total
    where l: "line_loop largest_12_volts lines = Inr (printed, p2_total)"
    and out: "out = printed @ [''Part 1: '' @ str p1_total, ''Part 2: '' @ str p2_total]"
    unfolding day3_main_def by (auto split: sum.splits)
  from line_loop_lines [OF l] obtain vs where vs: "length vs = length lines"
    "printed = map (\<lambda>(line, v). ''Line: '' @ line @ '' -> '' @ str v) (zip lines vs)"
    by blast
  have len: "length printed = length lines" using vs by simp
  have "take (length lines) out = printed" using out len by simp
  moreover have "drop (length lines) out = [''Part 1: '' @ str p1_total, ''Part 2: '' @ str p2_total]"
    using out len by simp
  ultimately show ?thesis using vs prints_two_parts_intro by auto
qed

text \<open>
  C9, as the code has it: every script prints its answers on a successful run as two
  lines.  They have the form \<^verbatim>\<open>Part 1: <value>\<close> and \<^verbatim>\<open>Part 2: <value>\<close> in
  \<^verbatim>\<open>day4/main.py\<close> (which always succeeds on a grid), \<^verbatim>\<open>day7/main.py\<close>, \<^verbatim>\<open>day8/main.py\<close>,
  \<^verbatim>\<open>day2/agent.py\<close>, \<^verbatim>\<open>day05/main.py\<close>, \<^verbatim>\<open>day6/main.py\<close>, \<^verbatim>\<open>day09/main.py\<close> and
  \<^verbatim>\<open>day10/main.py\<close>.  The two lines are labelled \<^verbatim>\<open>Total sum of invalid IDs: \<close> and
  \<^verbatim>\<open>Total sum of invalid IDs - Part 2: \<close> in \<^verbatim>\<open>day02/main.py\<close>,
  \<^verbatim>\<open>Number of times landed on 0: \<close> and \<^verbatim>\<open>Number of times clicked to 0: \<close> in
  \<^verbatim>\<open>day1/main.py\<close>, and \<^verbatim>\<open>Part 1 (Standard Method): \<close> and
  \<^verbatim>\<open>Part 2 (Click Method 0x434C49434B): \<close> in \<^verbatim>\<open>day1/agent.py\<close>.  \<^verbatim>\<open>day03/main.py\<close> and
  \<^verbatim>\<open>day3/main.py\<close> print the two \<^verbatim>\<open>Part\<close> lines after one line
  \<^verbatim>\<open>Line: <line> -> <value>\<close> for every input line.
\<close>

theorem scripts_print_two_lines:
  "(\<exists>out. day4_main lines4 = Some out \<and> prints_two_parts out)
   \<and> (\<forall>out. day7_main lines7 = Inr out \<longrightarrow> prints_two_parts out)
   \<and> (\<forall>out. day8_main coords8 = Inr out \<longrightarrow> prints_two_parts out)
   \<and> prints_two_parts (day2_agent_main ranges2)
   \<and> (\<forall>out. day05_main ranges5 ingredients = Inr out \<longrightarrow> prints_two_parts out)
   \<and> (\<forall>out. day6_main lines6 = Inr out \<longrightarrow> prints_two_parts out)
   \<and> (\<forall>out. day09_main make_polygon contains coords9 = Inr out \<longrightarrow> prints_two_parts out)
   \<and> (\<forall>out. day10_main solver steps = Some (Inr out) \<longrightarrow> prints_two_parts out)
   \<and> (\<exists>v1 v2. day02_main ranges2 =
         [''Total sum of invalid IDs: '' @ str v1, ''Total sum of invalid IDs - Part 2: '' @ str v2])
   \<and> (\<forall>out. day1_main lines1 = Inr out \<longrightarrow>
         (\<exists>v1 v2. out = [''Number of times landed on 0: '' @ str v1,
                        ''Number of times clicked to 0: '' @ str v2]))
   \<and> (\<exists>v1 v2. day1_agent_main rotations =
         [''Part 1 (Standard Method): '' @ str v1,
          ''Part 2 (Click Method 0x434C49434B): '' @ str v2])
   \<and> (\<forall>out. day03_main lines3 = Inr out \<longrightarrow>
         (\<exists>vs. length vs = length lines3
              \<and> take (length lines3) out =
                  map (\<lambda>(line, v). ''Line: '' @ line @ '' -> '' @ str v) (zip lines3 vs)
              \<and> prints_two_parts (drop (length lines3) out)))
   \<and> (\<forall>out. day3_main lines3 = Inr out \<longrightarrow>
         (\<exists>vs. length vs = length lines3
              \<and> take (length lines3) out =
                  map (\<lambda>(line, v). ''Line: '' @ line @ '' -> '' @ str v) (zip lines3 vs)
              \<and> prints_two_parts (drop (length lines3) out)))"
proof (intro conjI allI impI)
  show "\<exists>out. day4_main lines4 = Some out \<and> prints_two_parts out"
    by (rule day4_main_prints)
  show "prints_two_parts (day2_agent_main ranges2)"
    unfolding day2_agent_main_def Let_def by (rule prints_two_parts_intro)
  show "\<exists>v1 v2. day02_main ranges2 =
         [''Total sum of invalid IDs: '' @ str v1, ''Total sum of invalid IDs - Part 2: '' @ str v2]"
    unfolding day02_main_def Let_def by blast
  show "\<exists>v1 v2. day1_agent_main rotations =
         [''Part 1 (Standard Method): '' @ str v1,
          ''Part 2 (Click Method 0x434C49434B): '' @ str v2]"
    unfolding day1_agent_main_def Let_def by blast
next
  fix out assume "day7_main lines7 = Inr out"
  then show "prints_two_parts out" by (rule day7_main_prints)
next
  fix out assume "day8_main coords8 = Inr out"
  then show "prints_two_parts out" by (rule day8_main_prints)
next
  fix out assume "day05_main ranges5 ingredients = Inr out"
  then show "prints_two_parts out" by (rule day05_main_prints)
next
  fix out assume "day6_main lines6 = Inr out"
  then show "prints_two_parts out" by (rule day6_main_prints)
next
  fix out assume "day09_main make_polygon contains coords9 = Inr out"
  then show "prints_two_parts out" by (rule day09_main_prints)
next
  fix out assume "day10_main solver steps = Some (Inr out)"
  then show "prints_two_parts out" by (rule day10_main_prints)
next
  fix out assume "day1_main lines1 = Inr out"
  then show "\<exists>v1 v2. out = [''Number of times landed on 0: '' @ str v1,
                        ''Number of times clicked to 0: '' @ str v2]"
    by (rule day1_main_prints)
next
  fix out assume "day03_main lines3 = Inr out"
  then show "\<exists>vs. length vs = length lines3
              \<and> take (length lines3) out =
                  map (\<lambda>(line, v). ''Line: '' @ line @ '' -> '' @ str v) (zip lines3 vs)
              \<and> prints_two_parts (drop (length lines3) out)"
    by (rule day03_main_prints)
next
  fix out assume "day3_main lines3 = Inr out"
  then show "\<exists>vs. length vs = length lines3
              \<and> take (length lines3) out =
                  map (\<lambda>(line, v). ''Line: '' @ line @ '' -> '' @ str v) (zip lines3 vs)
              \<and> prints_two_parts (drop (length lines3) out)"
    by (rule day3_main_prints)
qed

theorem scripts_print_two_lines_witness:
  "day7_main [''.S.'', ''.^.'', ''...''] = Inr [''Part 1: 1'', ''Part 2: 2'']
   \<and> prints_two_parts [''Part 1: 1'', ''Part 2: 2'']
   \<and> day8_main [(0, 0, 0), (1, 0, 0), (3, 0, 0), (12, 0, 0)] = Inr [''Part 1: 4'', ''Part 2: 36'']
   \<and> prints_two_parts [''Part 1: 4'', ''Part 2: 36'']
   \<and> day05_main [(3, 5), (10, 14), (12, 18), (16, 20)] [1, 5, 8, 11, 17, 32]
       = Inr [''Part 1: 3'', ''Part 2: 14'']
   \<and> prints_two_parts [''Part 1: 3'', ''Part 2: 14'']
   \<and> day6_main [''12 3'', ''4  5'', ''+  *''] = Inr [''Part 1: 31'', ''Part 2: 51'']
   \<and> prints_two_parts [''Part 1: 31'', ''Part 2: 51'']
   \<and> day09_main (\<lambda>b. Inr b) (\<lambda>p r. r = (2, 3, 9, 5))
         [(7, 1), (11, 1), (11, 7), (9, 7), (9, 5), (2, 5), (2, 3), (7, 3)]
       = Inr [''Part 1: 50'', ''Part 2: 24'']
   \<and> prints_two_parts [''Part 1: 50'', ''Part 2: 24'']
   \<and> day10_main (\<lambda>b v. Inr [1, 2]) [(''##'', [[0], [1]], ())]
       = Some (Inr [''Part 1: 2'', ''Part 2: 3''])
   \<and> prints_two_parts [''Part 1: 2'', ''Part 2: 3'']
   \<and> day1_main [''L50'', ''R100'']
       = Inr [''Number of times landed on 0: 2'', ''Number of times clicked to 0: 2'']
   \<and> day03_main [''12''] = Inr [''Line: 12 -> 12'', ''Part 1: 12'', ''Part 2: 12'']
   \<and> prints_two_parts (drop 1 [''Line: 12 -> 12'', ''Part 1: 12'', ''Part 2: 12''])
   \<and> day3_main [''000000000001'']
       = Inr [''Line: 000000000001 -> 1'', ''Part 1: 1'', ''Part 2: 1'']
   \<and> prints_two_parts (drop 1 [''Line: 000000000001 -> 1'', ''Part 1: 1'', ''Part 2: 1''])"
proof -
  have r7: "day7_main [''.S.'', ''.^.'', ''...''] = Inr [''Part 1: 1'', ''Part 2: 2'']"
    by code_simp
  have r8: "day8_main [(0, 0, 0), (1, 0, 0), (3, 0, 0), (12, 0, 0)]
      = Inr [''Part 1: 4'', ''Part 2: 36'']"
    by code_simp
  have r5: "day05_main [(3, 5), (10, 14), (12, 18), (16, 20)] [1, 5, 8, 11, 17, 32]
      = Inr [''Part 1: 3'', ''Part 2: 14'']"
    by code_simp
  have r6: "day6_main [''12 3'', ''4  5'', ''+  *''] = Inr [''Part 1: 31'', ''Part 2: 51'']"
    by code_simp
  have r9: "day09_main (\<lambda>b. Inr b) (\<lambda>p r. r = (2, 3, 9, 5))
        [(7, 1), (11, 1), (11, 7), (9, 7), (9, 5), (2, 5), (2, 3), (7, 3)]
      = Inr [''Part 1: 50'', ''Part 2: 24'']"
    by code_simp
  have r10: "day10_main (\<lambda>b v. Inr [1, 2]) [(''##'', [[0], [1]], ())]
      = Some (Inr [''Part 1: 2'', ''Part 2: 3''])"
    by code_simp
  have r1: "day1_main [''L50'', ''R100'']
      = Inr [''Number of times landed on 0: 2'', ''Number of times clicked to 0: 2'']"
    by code_simp
  have r03: "day03_main [''12''] = Inr [''Line: 12 -> 12'', ''Part 1: 12'', ''Part 2: 12'']"
    by code_simp
  have r3: "day3_main [''000000000001'']
      = Inr [''Line: 000000000001 -> 1'', ''Part 1: 1'', ''Part 2: 1'']"
    by code_simp
  note t = scripts_print_two_lines
    [where ?lines7.0 = "[''.S.'', ''.^.'', ''...'']"
       and ?coords8.0 = "[(0, 0, 0), (1, 0, 0), (3, 0, 0), (12, 0, 0)]"
       and ?ranges5.0 = "[(3, 5), (10, 14), (12, 18), (16, 20)]"
       and ingredients = "[1, 5, 8, 11, 17, 32]"
       and ?lines6.0 = "[''12 3'', ''4  5'', ''+  *'']"
       and make_polygon = "\<lambda>b. Inr b" and contains = "\<lambda>p r. r = (2, 3, 9, 5)"
       and ?coords9.0 = "[(7, 1), (11, 1), (11, 7), (9, 7), (9, 5), (2, 5), (2, 3), (7, 3)]"
       and solver = "\<lambda>b v. Inr [1, 2]" and steps = "[(''##'', [[0], [1]], ())]"
       and ?lines1.0 = "[''L50'', ''R100'']"]
  from t r7 have p7: "prints_two_parts [''Part 1: 1'', ''Part 2: 2'']" by blast
  from t r8 have p8: "prints_two_parts [''Part 1: 4'', ''Part 2: 36'']" by blast
  from t r5 have p5: "prints_two_parts [''Part 1: 3'', ''Part 2: 14'']" by blast
  from t r6 have p6: "prints_two_parts [''Part 1: 31'', ''Part 2: 51'']" by blast
  from t r9 have p9: "prints_two_parts [''Part 1: 50'', ''Part 2: 24'']" by blast
  from t r10 have p10: "prints_two_parts [''Part 1: 2'', ''Part 2: 3'']" by blast
  from scripts_print_two_lines [where ?lines3.0 = "[''12'']"]
  have "\<forall>out. day03_main [''12''] = Inr out \<longrightarrow>
      prints_two_parts (drop (length [''12'']) out)"
    by blast
  with r03
  have "prints_two_parts
      (drop (length [''12'']) [''Line: 12 -> 12'', ''Part 1: 12'', ''Part 2: 12''])"
    by blast
  then have p03: "prints_two_parts (drop 1 [''Line: 12 -> 12'', ''Part 1: 12'', ''Part 2: 12''])"
    by simp
  from scripts_print_two_lines [where ?lines3.0 = "[''000000000001'']"]
  have "\<forall>out. day3_main [''000000000001''] = Inr out \<longrightarrow>
      prints_two_parts (drop (length [''000000000001'']) out)"
    by blast
  with r3
  have "prints_two_parts (drop (length [''000000000001''])
      [''Line: 000000000001 -> 1'', ''Part 1: 1'', ''Part 2: 1''])"
    by blast
  then have p3: "prints_two_parts
      (drop 1 [''Line: 000000000001 -> 1'', ''Part 1: 1'', ''Part 2: 1''])"
    by simp
  from r7 p7 r8 p8 r5 p5 r6 p6 r9 p9 r10 p10 r1 r03 p03 r3 p3 show ?thesis
    by (intro conjI)
qed

text \<open>
  The claim as stated fails for five scripts.  \<^verbatim>\<open>day02/main.py\<close>, \<^verbatim>\<open>day1/main.py\<close> and
  \<^verbatim>\<open>day1/agent.py\<close> print two lines under other labels; \<^verbatim>\<open>day03/main.py\<close> and
  \<^verbatim>\<open>day3/main.py\<close> print three lines for an input of one line.
\<close>

theorem scripts_other_lines_counterexample:
  "day02_main [(11, 22)] =
     [''Total sum of invalid IDs: 33'', ''Total sum of invalid IDs - Part 2: 33'']
   \<and> \<not> prints_two_parts (day02_main [(11, 22)])
   \<and> day1_main [''L50''] =
       Inr [''Number of times landed on 0: 1'', ''Number of times clicked to 0: 1'']
   \<and> \<not> prints_two_parts [''Number of times landed on 0: 1'', ''Number of times clicked to 0: 1'']
   \<and> day1_agent_main [\<lparr>direction = LEFT, distance = 50\<rparr>] =
       [''Part 1 (Standard Method): 1'', ''Part 2 (Click Method 0x434C49434B): 1'']
   \<and> \<not> prints_two_parts (day1_agent_main [\<lparr>direction = LEFT, distance = 50\<rparr>])
   \<and> day03_main [''12''] = Inr [''Line: 12 -> 12'', ''Part 1: 12'', ''Part 2: 12'']
   \<and> \<not> prints_two_parts [''Line: 12 -> 12'', ''Part 1: 12'', ''Part 2: 12'']
   \<and> day3_main [''000000000001''] =
       Inr [''Line: 000000000001 -> 1'', ''Part 1: 1'', ''Part 2: 1'']
   \<and> \<not> prints_two_parts [''Line: 000000000001 -> 1'', ''Part 1: 1'', ''Part 2: 1'']"
proof -
  have a: "day02_main [(11, 22)] =
     [''Total sum of invalid IDs: 33'', ''Total sum of invalid IDs - Part 2: 33'']"
    by code_simp
  have a': "\<not> prints_two_parts (day02_main [(11, 22)])"
    unfolding a by (simp add: prints_two_parts_def)
  have b: "day1_main [''L50''] =
      Inr [''Number of times landed on 0: 1'', ''Number of times clicked to 0: 1'']"
    by code_simp
  have b': "\<not> prints_two_parts
      [''Number of times landed on 0: 1'', ''Number of times clicked to 0: 1'']"
    by (simp add: prints_two_parts_def)
  have c: "day1_agent_main [\<lparr>direction = LEFT, distance = 50\<rparr>] =
      [''Part 1 (Standard Method): 1'', ''Part 2 (Click Method 0x434C49434B): 1'']"
    by code_simp
  have c': "\<not> prints_two_parts (day1_agent_main [\<lparr>direction = LEFT, distance = 50\<rparr>])"
    unfolding c by (simp add: prints_two_parts_def)
  have d: "day03_main [''12''] = Inr [''Line: 12 -> 12'', ''Part 1: 12'', ''Part 2: 12'']"
    by code_simp
  have d': "\<not> prints_two_parts [''Line: 12 -> 12'', ''Part 1: 12'', ''Part 2: 12'']"
    by (simp add: prints_two_parts_def)
  have e: "day3_main [''000000000001''] =
      Inr [''Line: 000000000001 -> 1'', ''Part 1: 1'', ''Part 2: 1'']"
    by code_simp
  have e': "\<not> prints_two_parts [''Line: 000000000001 -> 1'', ''Part 1: 1'', ''Part 2: 1'']"
    by (simp add: prints_two_parts_def)
  from a a' b b' c c' d d' e e' show ?thesis by (intro conjI)
qed

end
